theory Spec2Isabelle
  imports Main "HOL-Library.Word"
begin

section \<open>Memory model of \<^verbatim>\<open>el_malloc.c\<close>\<close>

text \<open>
  Addresses and \<^verbatim>\<open>size_t\<close> values are 64-bit words: \<open>+\<close> and \<open>-\<close> wrap around as
  \<^verbatim>\<open>PTR_PLUS_BYTES\<close> and \<^verbatim>\<open>PTR_MINUS_BYTES\<close> do (both cast to \<^verbatim>\<open>size_t\<close>), and \<open>\<le>\<close>, \<open><\<close>
  are the unsigned comparisons of C.

  The store is kept per field: one map from addresses to values for each field of
  \<^verbatim>\<open>el_blockhead_t\<close> (\<^verbatim>\<open>size\<close>, \<^verbatim>\<open>state\<close>, \<^verbatim>\<open>next\<close>, \<^verbatim>\<open>prev\<close>) and one for the \<^verbatim>\<open>size\<close> of
  \<^verbatim>\<open>el_blockfoot_t\<close>. A header at address \<open>a\<close> and a footer at address \<open>b\<close> are looked up
  by the addresses the C code computes, so a merged block finds its footer where the
  absorbed block had it. Two accesses alias exactly when they name the same field at the
  same address; this is the behaviour of the C program whenever headers and footers do
  not partially overlap, as is the case for blocks that tile the arena. Accesses to
  unmapped memory (a segmentation fault in C) are not modelled.
\<close>

type_synonym addr = "64 word"
type_synonym size_t = "64 word"

abbreviation NULL :: addr where "NULL \<equiv> 0"

subsection \<open>Constants of \<^verbatim>\<open>el_malloc.h\<close>\<close>

text \<open>
  Modelled from the spec: the header \<^verbatim>\<open>el_malloc.h\<close> is not part of the sources. The spec
  only says that the overhead is the fixed byte cost of one header plus one footer.
  The values below are those of an LP64 target: a header of \<^verbatim>\<open>size_t\<close>, \<^verbatim>\<open>char\<close> and two
  pointers occupies 32 bytes, a footer of one \<^verbatim>\<open>size_t\<close> occupies 8, pages are 4096 bytes
  and the heap is mapped at \<^verbatim>\<open>0x600000000000\<close> (the address shown in the comment of
  \<^verbatim>\<open>el_print_blocklist\<close>).
\<close>

definition HEAD_BYTES :: size_t where \<comment> \<open>\<^verbatim>\<open>sizeof(el_blockhead_t)\<close>\<close>
  "HEAD_BYTES = 32"

definition FOOT_BYTES :: size_t where \<comment> \<open>\<^verbatim>\<open>sizeof(el_blockfoot_t)\<close>\<close>
  "FOOT_BYTES = 8"

definition EL_BLOCK_OVERHEAD :: size_t where
  "EL_BLOCK_OVERHEAD = HEAD_BYTES + FOOT_BYTES"

definition EL_PAGE_BYTES :: size_t where
  "EL_PAGE_BYTES = 4096"

definition EL_HEAP_INITIAL_SIZE :: size_t where
  "EL_HEAP_INITIAL_SIZE = 4096"

definition EL_HEAP_START_ADDRESS :: addr where
  "EL_HEAP_START_ADDRESS = 0x600000000000"

definition EL_CTL_START_ADDRESS :: addr where
  "EL_CTL_START_ADDRESS = 0x700000000000"

definition EL_AVAILABLE :: char where "EL_AVAILABLE = CHR ''a''"
definition EL_USED :: char where "EL_USED = CHR ''u''"
definition EL_BEGIN_BLOCK :: char where "EL_BEGIN_BLOCK = CHR ''B''"
definition EL_END_BLOCK :: char where "EL_END_BLOCK = CHR ''E''"

definition EL_UNINITIALIZED :: size_t where
  "EL_UNINITIALIZED = - 1"

text \<open>
  Modelled from the spec: the layout of \<^verbatim>\<open>el_ctl_t\<close> and \<^verbatim>\<open>el_blocklist_t\<close> is declared in
  the missing header. The sentinel nodes \<^verbatim>\<open>beg_actual\<close> and \<^verbatim>\<open>end_actual\<close> of each list live
  inside the control structure; only their being four distinct addresses outside the
  heap matters below.
\<close>

definition AVAIL_BEG_ACTUAL :: addr where "AVAIL_BEG_ACTUAL = EL_CTL_START_ADDRESS + 24"
definition AVAIL_END_ACTUAL :: addr where "AVAIL_END_ACTUAL = EL_CTL_START_ADDRESS + 56"
definition USED_BEG_ACTUAL :: addr where "USED_BEG_ACTUAL = EL_CTL_START_ADDRESS + 120"
definition USED_END_ACTUAL :: addr where "USED_END_ACTUAL = EL_CTL_START_ADDRESS + 152"

subsection \<open>The control structure and the store\<close>

record el_blocklist =
  beg :: addr         \<comment> \<open>\<^verbatim>\<open>list->beg\<close>\<close>
  fin :: addr         \<comment> \<open>\<^verbatim>\<open>list->end\<close>\<close>
  len :: size_t       \<comment> \<open>\<^verbatim>\<open>list->length\<close>\<close>
  bytes :: size_t     \<comment> \<open>\<^verbatim>\<open>list->bytes\<close>\<close>

record el_ctl =
  heap_start :: addr
  heap_end :: addr
  heap_bytes :: size_t
  avail :: el_blocklist
  used :: el_blocklist
  head_size :: "addr \<Rightarrow> size_t"    \<comment> \<open>\<^verbatim>\<open>((el_blockhead_t * ) a)->size\<close>\<close>
  head_state :: "addr \<Rightarrow> char"     \<comment> \<open>\<^verbatim>\<open>((el_blockhead_t * ) a)->state\<close>\<close>
  head_next :: "addr \<Rightarrow> addr"      \<comment> \<open>\<^verbatim>\<open>((el_blockhead_t * ) a)->next\<close>\<close>
  head_prev :: "addr \<Rightarrow> addr"      \<comment> \<open>\<^verbatim>\<open>((el_blockhead_t * ) a)->prev\<close>\<close>
  foot_size :: "addr \<Rightarrow> size_t"    \<comment> \<open>\<^verbatim>\<open>((el_blockfoot_t * ) a)->size\<close>\<close>

text \<open>The \<^verbatim>\<open>el_blocklist_t *\<close> arguments of the list functions are one of the two lists.\<close>

datatype list_id = AVAIL | USED

fun get_list :: "el_ctl \<Rightarrow> list_id \<Rightarrow> el_blocklist" where
  "get_list s AVAIL = avail s"
| "get_list s USED = used s"

fun put_list :: "el_ctl \<Rightarrow> list_id \<Rightarrow> el_blocklist \<Rightarrow> el_ctl" where
  "put_list s AVAIL l = s\<lparr>avail := l\<rparr>"
| "put_list s USED l = s\<lparr>used := l\<rparr>"

section \<open>Pointer arithmetic\<close>

definition el_get_footer :: "el_ctl \<Rightarrow> addr \<Rightarrow> addr" where
  "el_get_footer s head = head + (HEAD_BYTES + head_size s head)"

definition el_get_header :: "el_ctl \<Rightarrow> addr \<Rightarrow> addr" where
  "el_get_header s foot = foot - (HEAD_BYTES + foot_size s foot)"

definition el_block_above :: "el_ctl \<Rightarrow> addr \<Rightarrow> addr" where
  "el_block_above s block =
     (let higher = block + (head_size s block + EL_BLOCK_OVERHEAD)
      in if higher \<ge> heap_end s then NULL else higher)"

definition el_block_below :: "el_ctl \<Rightarrow> addr \<Rightarrow> addr" where
  "el_block_below s block =
     (let foot = block - FOOT_BYTES
      in if foot \<le> heap_start s then NULL
         else block - (foot_size s foot + EL_BLOCK_OVERHEAD))"

section \<open>Block list operations\<close>

definition el_init_blocklist :: "el_ctl \<Rightarrow> list_id \<Rightarrow> addr \<Rightarrow> addr \<Rightarrow> el_ctl" where
  "el_init_blocklist s l beg_actual end_actual =
     (let s = s\<lparr>head_state := (head_state s)(beg_actual := EL_BEGIN_BLOCK)\<rparr>;
          s = s\<lparr>head_size := (head_size s)(beg_actual := EL_UNINITIALIZED)\<rparr>;
          s = s\<lparr>head_state := (head_state s)(end_actual := EL_END_BLOCK)\<rparr>;
          s = s\<lparr>head_size := (head_size s)(end_actual := EL_UNINITIALIZED)\<rparr>;
          s = s\<lparr>head_next := (head_next s)(beg_actual := end_actual)\<rparr>;
          s = s\<lparr>head_prev := (head_prev s)(beg_actual := NULL)\<rparr>;
          s = s\<lparr>head_next := (head_next s)(end_actual := NULL)\<rparr>;
          s = s\<lparr>head_prev := (head_prev s)(end_actual := beg_actual)\<rparr>
      in put_list s l \<lparr>beg = beg_actual, fin = end_actual, len = 0, bytes = 0\<rparr>)"

definition el_add_block_front :: "el_ctl \<Rightarrow> list_id \<Rightarrow> addr \<Rightarrow> el_ctl" where
  "el_add_block_front s l block =
     (let s = s\<lparr>head_next := (head_next s)(block := head_next s (beg (get_list s l)))\<rparr>;
          s = s\<lparr>head_prev := (head_prev s)(head_next s block := block)\<rparr>;
          s = s\<lparr>head_prev := (head_prev s)(block := beg (get_list s l))\<rparr>;
          s = s\<lparr>head_next := (head_next s)(head_prev s block := block)\<rparr>;
          lst = get_list s l
      in put_list s l
           (lst\<lparr>len := len lst + 1,
                bytes := bytes lst + (head_size s block + EL_BLOCK_OVERHEAD)\<rparr>))"

definition el_remove_block :: "el_ctl \<Rightarrow> list_id \<Rightarrow> addr \<Rightarrow> el_ctl" where
  "el_remove_block s l block =
     (let s = s\<lparr>head_prev := (head_prev s)(head_next s block := head_prev s block)\<rparr>;
          s = s\<lparr>head_next := (head_next s)(head_prev s block := head_next s block)\<rparr>;
          lst = get_list s l
      in put_list s l
           (lst\<lparr>len := len lst - 1,
                bytes := bytes lst - (head_size s block + EL_BLOCK_OVERHEAD)\<rparr>))"

section \<open>Allocation\<close>

text \<open>
  The \<^verbatim>\<open>while\<close> loop of \<^verbatim>\<open>el_find_first_avail\<close>, started at \<open>block\<close>. On a cyclic list the
  loop does not return; that is the value \<open>None\<close>.
\<close>

partial_function (option) find_loop :: "el_ctl \<Rightarrow> addr \<Rightarrow> size_t \<Rightarrow> addr option" where
  "find_loop s block sz =
     (if head_next s block \<noteq> fin (avail s)
      then (if head_state s (head_next s block) = EL_AVAILABLE
               \<and> head_size s (head_next s block) \<ge> sz
            then Some (head_next s block)
            else find_loop s (head_next s block) sz)
      else Some NULL)"

declare find_loop.simps [code]

definition el_find_first_avail :: "el_ctl \<Rightarrow> size_t \<Rightarrow> addr option" where
  "el_find_first_avail s sz = find_loop s (beg (avail s)) sz"

definition el_split_block :: "el_ctl \<Rightarrow> addr \<Rightarrow> size_t \<Rightarrow> addr \<times> el_ctl" where
  "el_split_block s block size_NEW =
     (if head_size s block < size_NEW + EL_BLOCK_OVERHEAD then (NULL, s)
      else
        let foot = el_get_footer s block;
            size_OLD = head_size s block;
            s = s\<lparr>head_size := (head_size s)(block := size_NEW)\<rparr>;
            foot_NEW = el_get_footer s block;
            s = s\<lparr>foot_size := (foot_size s)(foot_NEW := size_NEW)\<rparr>;
            block_NEW = el_block_above s block;
            s = s\<lparr>head_size :=
                    (head_size s)(block_NEW := size_OLD - (size_NEW + EL_BLOCK_OVERHEAD))\<rparr>;
            s = s\<lparr>head_state := (head_state s)(block_NEW := EL_AVAILABLE)\<rparr>;
            s = s\<lparr>foot_size := (foot_size s)(foot := head_size s block_NEW)\<rparr>
        in (block_NEW, s))"

definition el_malloc :: "el_ctl \<Rightarrow> size_t \<Rightarrow> (addr \<times> el_ctl) option" where
  "el_malloc s nbytes =
     (case el_find_first_avail s nbytes of
        None \<Rightarrow> None
      | Some block \<Rightarrow>
          if block = NULL then Some (NULL, s)
          else
            let s = el_remove_block s AVAIL block;
                (new_block, s) = el_split_block s block nbytes;
                s = (if new_block \<noteq> NULL then el_add_block_front s AVAIL new_block else s);
                s = s\<lparr>head_state := (head_state s)(block := EL_USED)\<rparr>;
                s = el_add_block_front s USED block
            in Some (block + HEAD_BYTES, s))"

section \<open>Release and coalescing\<close>

text \<open>
  \<^verbatim>\<open>el_merge_block_with_above\<close> calls itself twice: after a merge, on the merged block, and
  then on the block below. A run that does not return is the value \<open>None\<close>.
\<close>

partial_function (option) el_merge_block_with_above :: "el_ctl \<Rightarrow> addr \<Rightarrow> el_ctl option" where
  "el_merge_block_with_above s lower =
     (if lower = NULL then Some s
      else if head_state s lower = EL_AVAILABLE then
        (if el_block_above s lower = NULL then Some s
         else
           Option.bind
             (if head_state s (el_block_above s lower) = EL_AVAILABLE then
                el_merge_block_with_above
                  (let higher = el_block_above s lower;
                       s = el_remove_block s AVAIL higher;
                       s = el_remove_block s AVAIL lower;
                       new_size = head_size s lower + head_size s higher + EL_BLOCK_OVERHEAD;
                       s = s\<lparr>head_size := (head_size s)(lower := new_size)\<rparr>;
                       s = s\<lparr>foot_size := (foot_size s)(el_get_footer s lower := new_size)\<rparr>
                   in el_add_block_front s AVAIL lower)
                  lower
              else Some s)
             (\<lambda>s. if el_block_below s lower = NULL then Some s
                  else if head_state s (el_block_below s lower) = EL_AVAILABLE
                  then el_merge_block_with_above s (el_block_below s lower)
                  else Some s))
      else Some s)"

declare el_merge_block_with_above.simps [code]

definition el_free :: "el_ctl \<Rightarrow> addr \<Rightarrow> el_ctl option" where
  "el_free s ptr =
     (let free = ptr - HEAD_BYTES;
          s = el_remove_block s USED free;
          s = s\<lparr>head_state := (head_state s)(free := EL_AVAILABLE)\<rparr>;
          s = el_add_block_front s AVAIL free
      in el_merge_block_with_above s free)"

section \<open>Initialisation and heap expansion\<close>

text \<open>
  \<^verbatim>\<open>mmap\<close> belongs to the operating system; its answer is an argument of the model.
\<close>

datatype mmap_result = MAP_FAILED | Mapped addr

datatype fault = Assertion_failed

definition zero_store :: el_ctl where \<comment> \<open>freshly mapped anonymous pages read as zero\<close>
  "zero_store =
     \<lparr>heap_start = 0, heap_end = 0, heap_bytes = 0,
      avail = \<lparr>beg = 0, fin = 0, len = 0, bytes = 0\<rparr>,
      used = \<lparr>beg = 0, fin = 0, len = 0, bytes = 0\<rparr>,
      head_size = (\<lambda>_. 0), head_state = (\<lambda>_. CHR 0x00),
      head_next = (\<lambda>_. 0), head_prev = (\<lambda>_. 0), foot_size = (\<lambda>_. 0)\<rparr>"

definition el_init :: "mmap_result \<Rightarrow> mmap_result \<Rightarrow> fault + (int \<times> el_ctl)" where
  "el_init ctl_map heap_map =
     (if ctl_map \<noteq> Mapped EL_CTL_START_ADDRESS then Inl Assertion_failed
      else if heap_map \<noteq> Mapped EL_HEAP_START_ADDRESS then Inl Assertion_failed
      else
        let heap = EL_HEAP_START_ADDRESS;
            s = zero_store;
            s = s\<lparr>heap_bytes := EL_HEAP_INITIAL_SIZE\<rparr>;
            s = s\<lparr>heap_start := heap\<rparr>;
            s = s\<lparr>heap_end := heap + heap_bytes s\<rparr>
        in if heap_bytes s < EL_BLOCK_OVERHEAD then Inr (1, s)
           else
             let s = el_init_blocklist s AVAIL AVAIL_BEG_ACTUAL AVAIL_END_ACTUAL;
                 s = el_init_blocklist s USED USED_BEG_ACTUAL USED_END_ACTUAL;
                 sz = heap_bytes s - EL_BLOCK_OVERHEAD;
                 ablock = heap_start s;
                 s = s\<lparr>head_size := (head_size s)(ablock := sz)\<rparr>;
                 s = s\<lparr>head_state := (head_state s)(ablock := EL_AVAILABLE)\<rparr>;
                 afoot = el_get_footer s ablock;
                 s = s\<lparr>foot_size := (foot_size s)(afoot := sz)\<rparr>;
                 s = s\<lparr>head_prev := (head_prev s)(ablock := beg (avail s))\<rparr>;
                 s = s\<lparr>head_next := (head_next s)(ablock := head_next s (beg (avail s)))\<rparr>;
                 s = s\<lparr>head_next := (head_next s)(head_prev s ablock := ablock)\<rparr>;
                 s = s\<lparr>head_prev := (head_prev s)(head_next s ablock := ablock)\<rparr>;
                 s = s\<lparr>avail := (avail s)\<lparr>len := len (avail s) + 1\<rparr>\<rparr>;
                 s = s\<lparr>avail := (avail s)
                       \<lparr>bytes := bytes (avail s) + (head_size s ablock + EL_BLOCK_OVERHEAD)\<rparr>\<rparr>
             in Inr (0, s))"

text \<open>
  \<^verbatim>\<open>npages\<close> is a C \<^verbatim>\<open>int\<close>; the product \<^verbatim>\<open>npages * EL_PAGE_BYTES\<close> is converted to
  \<^verbatim>\<open>size_t\<close>.
\<close>

definition el_append_pages_to_heap ::
  "el_ctl \<Rightarrow> int \<Rightarrow> mmap_result \<Rightarrow> (int \<times> el_ctl) option" where
  "el_append_pages_to_heap s npages new_heap_segment =
     (let new_size = (word_of_int npages :: size_t) * EL_PAGE_BYTES
      in case new_heap_segment of
           MAP_FAILED \<Rightarrow> Some (1, s)
         | Mapped seg \<Rightarrow>
             if seg \<noteq> heap_end s then Some (1, s)
             else
               let s = s\<lparr>heap_end := heap_end s + new_size\<rparr>;
                   s = s\<lparr>heap_bytes := heap_bytes s + new_size\<rparr>;
                   new_block = seg;
                   s = s\<lparr>head_size := (head_size s)(new_block := new_size - EL_BLOCK_OVERHEAD)\<rparr>;
                   s = s\<lparr>head_state := (head_state s)(new_block := EL_AVAILABLE)\<rparr>;
                   new_foot = el_get_footer s new_block;
                   s = s\<lparr>foot_size := (foot_size s)(new_foot := head_size s new_block)\<rparr>;
                   s = el_add_block_front s AVAIL new_block;
                   prev_block = el_block_below s new_block
               in if prev_block \<noteq> NULL \<and> head_state s prev_block = EL_AVAILABLE
                  then map_option (Pair 0) (el_merge_block_with_above s prev_block)
                  else Some (0, s))"

section \<open>Notions used to state the properties\<close>

text \<open>
  The members of a list, in the order in which \<^verbatim>\<open>next\<close> links them between the two
  sentinels: \<open>list_seg nxt p xs e\<close> holds when following \<open>nxt\<close> from \<open>p\<close> visits exactly \<open>xs\<close>
  and then reaches \<open>e\<close>.
\<close>

fun list_seg :: "(addr \<Rightarrow> addr) \<Rightarrow> addr \<Rightarrow> addr list \<Rightarrow> addr \<Rightarrow> bool" where
  "list_seg nxt p [] e = (nxt p = e)"
| "list_seg nxt p (x # xs) e = (nxt p = x \<and> x \<noteq> e \<and> list_seg nxt x xs e)"

text \<open>
  The address-order walk over the heap, as the loop of \<^verbatim>\<open>el_print_stats\<close> performs it:
  start at a block and step with \<^verbatim>\<open>el_block_above\<close> until it answers \<^verbatim>\<open>NULL\<close>.
\<close>

partial_function (option) heap_walk :: "el_ctl \<Rightarrow> addr \<Rightarrow> addr list option" where
  "heap_walk s cur =
     (if cur = NULL then Some []
      else Option.bind (heap_walk s (el_block_above s cur)) (\<lambda>rest. Some (cur # rest)))"

declare heap_walk.simps [code]

subsection \<open>Concrete runs\<close>

definition init_state :: el_ctl where
  "init_state =
     (case el_init (Mapped EL_CTL_START_ADDRESS) (Mapped EL_HEAP_START_ADDRESS) of
        Inr (_, s) \<Rightarrow> s
      | Inl _ \<Rightarrow> zero_store)"

text \<open>
  Allocate 100 bytes, allocate the whole remainder (3916 bytes, the topmost block), then
  release the first allocation. The result is the pointer of the second allocation and the
  state in which it is still in use.
\<close>

definition free_top_prefix :: "(addr \<times> el_ctl) option" where
  "free_top_prefix =
     Option.bind (el_malloc init_state 100) (\<lambda>(p1, s1).
     Option.bind (el_malloc s1 3916) (\<lambda>(p2, s2).
     Option.bind (el_free s2 p1) (\<lambda>s3. Some (p2, s3))))"

text \<open>The same run followed by the release of the second allocation.\<close>

definition free_top_run :: "el_ctl option" where
  "free_top_run = Option.bind free_top_prefix (\<lambda>(p2, s3). el_free s3 p2)"



subsection \<open>Well-formed states\<close>

text \<open>
  A doubly linked list between two sentinels: \<open>dlist nxt prv p xs e\<close> is \<open>list_seg\<close> together
  with the \<^verbatim>\<open>prev\<close> links that mirror it.
\<close>

fun dlist :: "(addr \<Rightarrow> addr) \<Rightarrow> (addr \<Rightarrow> addr) \<Rightarrow> addr \<Rightarrow> addr list \<Rightarrow> addr \<Rightarrow> bool" where
  "dlist nxt prv p [] e = (nxt p = e \<and> prv e = p)"
| "dlist nxt prv p (x # xs) e = (nxt p = x \<and> prv x = p \<and> dlist nxt prv x xs e)"

text \<open>The first address past a block, as a natural number (no wrap-around).\<close>

definition blk_end :: "el_ctl \<Rightarrow> addr \<Rightarrow> nat" where
  "blk_end s b = unat b + unat (head_size s b) + unat EL_BLOCK_OVERHEAD"

text \<open>
  \<open>tiles s a bs e\<close>: the blocks \<open>bs\<close>, in address order, cover the bytes from \<open>a\<close> to \<open>e\<close> without
  gap or overlap; every footer mirrors the size in its header and every block is marked
  available or used.
\<close>

fun tiles :: "el_ctl \<Rightarrow> addr \<Rightarrow> addr list \<Rightarrow> addr \<Rightarrow> bool" where
  "tiles s a [] e = (a = e)"
| "tiles s a (b # bs) e =
     (b = a \<and> blk_end s b \<le> unat e
      \<and> foot_size s (el_get_footer s b) = head_size s b
      \<and> (head_state s b = EL_AVAILABLE \<or> head_state s b = EL_USED)
      \<and> tiles s (b + (head_size s b + EL_BLOCK_OVERHEAD)) bs e)"

definition sentinels :: "addr set" where
  "sentinels = {AVAIL_BEG_ACTUAL, AVAIL_END_ACTUAL, USED_BEG_ACTUAL, USED_END_ACTUAL}"

text \<open>
  A list of the control structure with members \<open>xs\<close>: linked both ways between its sentinels,
  \<^verbatim>\<open>length\<close> and \<^verbatim>\<open>bytes\<close> (both \<^verbatim>\<open>size_t\<close>) being the member count and the sum of
  \<^verbatim>\<open>size + EL_BLOCK_OVERHEAD\<close> over the members.
\<close>

definition list_ok :: "el_ctl \<Rightarrow> el_blocklist \<Rightarrow> addr list \<Rightarrow> bool" where
  "list_ok s l xs \<longleftrightarrow>
     dlist (head_next s) (head_prev s) (beg l) xs (fin l)
     \<and> len l = of_nat (length xs)
     \<and> bytes l = sum_list (map (\<lambda>b. head_size s b + EL_BLOCK_OVERHEAD) xs)"

definition lists_ok :: "el_ctl \<Rightarrow> addr list \<Rightarrow> addr list \<Rightarrow> bool" where
  "lists_ok s fl ul \<longleftrightarrow>
     beg (avail s) = AVAIL_BEG_ACTUAL \<and> fin (avail s) = AVAIL_END_ACTUAL
     \<and> beg (used s) = USED_BEG_ACTUAL \<and> fin (used s) = USED_END_ACTUAL
     \<and> list_ok s (avail s) fl \<and> list_ok s (used s) ul
     \<and> distinct (fl @ ul) \<and> set (fl @ ul) \<inter> sentinels = {}"

text \<open>
  The arena lies below the control block and leaves room for the footer lookup below its
  first block.
\<close>

definition arena_ok :: "el_ctl \<Rightarrow> bool" where
  "arena_ok s \<longleftrightarrow>
     8 \<le> unat (heap_start s) \<and> unat (heap_end s) \<le> unat EL_CTL_START_ADDRESS
     \<and> heap_bytes s = heap_end s - heap_start s"

text \<open>
  \<open>wf s bs fl ul\<close>: the blocks \<open>bs\<close> tile the arena, the free list holds exactly the available
  ones (\<open>fl\<close>, in link order) and the used list exactly the used ones (\<open>ul\<close>).
\<close>

definition wf :: "el_ctl \<Rightarrow> addr list \<Rightarrow> addr list \<Rightarrow> addr list \<Rightarrow> bool" where
  "wf s bs fl ul \<longleftrightarrow>
     arena_ok s \<and> tiles s (heap_start s) bs (heap_end s) \<and> lists_ok s fl ul
     \<and> set fl = {b \<in> set bs. head_state s b = EL_AVAILABLE}
     \<and> set ul = {b \<in> set bs. head_state s b = EL_USED}"

text \<open>
  The first half of \<^verbatim>\<open>el_append_pages_to_heap\<close> when \<^verbatim>\<open>mmap\<close> answers \<^verbatim>\<open>heap_end\<close>: the bounds
  are moved, the new block is formatted and put at the front of the free list; the merge
  with the block below is still to come.
\<close>

definition grow_block :: "el_ctl \<Rightarrow> int \<Rightarrow> el_ctl" where
  "grow_block s npages =
     (let new_size = (word_of_int npages :: size_t) * EL_PAGE_BYTES;
          new_block = heap_end s;
          s = s\<lparr>heap_end := heap_end s + new_size, heap_bytes := heap_bytes s + new_size,
                head_size := (head_size s)(new_block := new_size - EL_BLOCK_OVERHEAD),
                head_state := (head_state s)(new_block := EL_AVAILABLE),
                foot_size := (foot_size s)(new_block + (HEAD_BYTES + (new_size - EL_BLOCK_OVERHEAD))
                                             := new_size - EL_BLOCK_OVERHEAD)\<rparr>
      in el_add_block_front s AVAIL new_block)"

text \<open>
  The first half of \<^verbatim>\<open>el_free\<close>: the block is taken off the used list, marked available and
  put at the front of the free list; the merge is still to come.
\<close>

definition free_block :: "el_ctl \<Rightarrow> addr \<Rightarrow> el_ctl" where
  "free_block s free =
     (let s = el_remove_block s USED free;
          s = s\<lparr>head_state := (head_state s)(free := EL_AVAILABLE)\<rparr>
      in el_add_block_front s AVAIL free)"

subsection \<open>Notions for the recursion of \<^verbatim>\<open>el_merge_block_with_above\<close>\<close>

text \<open>The state change of one merge: the body of the inner conditional, before the recursive call.\<close>

definition merge_step :: "el_ctl \<Rightarrow> addr \<Rightarrow> el_ctl" where
  "merge_step s lower =
     (let higher = el_block_above s lower;
          s = el_remove_block s AVAIL higher;
          s = el_remove_block s AVAIL lower;
          new_size = head_size s lower + head_size s higher + EL_BLOCK_OVERHEAD;
          s = s\<lparr>head_size := (head_size s)(lower := new_size)\<rparr>;
          s = s\<lparr>foot_size := (foot_size s)(el_get_footer s lower := new_size)\<rparr>
      in el_add_block_front s AVAIL lower)"

definition above_done :: "el_ctl \<Rightarrow> addr \<Rightarrow> bool" where
  "above_done s x \<longleftrightarrow>
     el_block_above s x = NULL \<or> head_state s (el_block_above s x) \<noteq> EL_AVAILABLE"

text \<open>The end of the span that a merge starting at \<open>x\<close> is certain to cover.\<close>

definition cov :: "el_ctl \<Rightarrow> addr \<Rightarrow> nat" where
  "cov s x = (if above_done s x then blk_end s x else blk_end s (el_block_above s x))"

text \<open>Calls of \<^verbatim>\<open>el_merge_block_with_above\<close> that return the state unchanged.\<close>

inductive quiet :: "el_ctl \<Rightarrow> addr \<Rightarrow> bool" for s :: el_ctl where
  quiet_null: "quiet s NULL"
| quiet_state: "head_state s x \<noteq> EL_AVAILABLE \<Longrightarrow> quiet s x"
| quiet_top: "el_block_above s x = NULL \<Longrightarrow> quiet s x"
| quiet_below: "head_state s (el_block_above s x) \<noteq> EL_AVAILABLE \<Longrightarrow>
     quiet s (el_block_below s x) \<Longrightarrow> quiet s x"

text \<open>
  What a call at \<open>x\<close> in state \<open>s\<close> guarantees of its result \<open>s'\<close>: a well-formed state with the
  same used list and at most \<open>n\<close> blocks, in which an available block starting at or below
  \<open>x\<close> covers \<open>cov s x\<close>; states, bounds and byte totals are unchanged, and so are the headers
  above \<open>x\<close> and the footers below the covered end.
\<close>

definition merge_post :: "el_ctl \<Rightarrow> nat \<Rightarrow> addr list \<Rightarrow> addr \<Rightarrow> el_ctl \<Rightarrow> bool" where
  "merge_post s n ul x s' \<longleftrightarrow>
     (\<exists>bs' fl'. wf s' bs' fl' ul \<and> length bs' \<le> n
        \<and> (quiet s' (el_block_below s' x) \<or> (x \<in> set bs' \<and> el_block_above s' x = NULL))
        \<and> (\<exists>c \<in> set bs'. head_state s' c = EL_AVAILABLE \<and> unat c \<le> unat x
               \<and> cov s x \<le> blk_end s' c))
     \<and> head_state s' = head_state s \<and> heap_start s' = heap_start s
     \<and> heap_end s' = heap_end s \<and> heap_bytes s' = heap_bytes s
     \<and> used s' = used s \<and> bytes (avail s') = bytes (avail s)
     \<and> above_done s' x
     \<and> (\<forall>a. unat x < unat a \<longrightarrow> head_size s' a = head_size s a)
     \<and> (\<forall>a. unat a + 8 < cov s x \<longrightarrow> foot_size s' a = foot_size s a)"

subsection \<open>Reachable states\<close>

text \<open>
  What \<^verbatim>\<open>mmap\<close> may answer to \<^verbatim>\<open>el_append_pages_to_heap\<close>: it fails, or maps somewhere else, or
  maps at least one page at \<^verbatim>\<open>heap_end\<close>, and then the new pages end below the control block.
\<close>

definition mmap_fits :: "el_ctl \<Rightarrow> int \<Rightarrow> mmap_result \<Rightarrow> bool" where
  "mmap_fits s npages r =
     (case r of
        MAP_FAILED \<Rightarrow> True
      | Mapped a \<Rightarrow>
          a \<noteq> heap_end s
          \<or> (1 \<le> npages
              \<and> unat (heap_end s) + nat npages * unat EL_PAGE_BYTES
                   \<le> unat EL_CTL_START_ADDRESS))"

text \<open>
  \<open>reach s P\<close>: the state \<open>s\<close> results from \<^verbatim>\<open>el_init\<close> followed by any number of calls of
  \<^verbatim>\<open>el_malloc\<close>, \<^verbatim>\<open>el_free\<close> and \<^verbatim>\<open>el_append_pages_to_heap\<close> that have returned, \<open>P\<close> being the
  pointers handed out and not yet released; \<^verbatim>\<open>el_free\<close> is only called on such a pointer.
\<close>

inductive reach :: "el_ctl \<Rightarrow> addr set \<Rightarrow> bool" where
  reach_init:
    "el_init (Mapped EL_CTL_START_ADDRESS) (Mapped EL_HEAP_START_ADDRESS) = Inr (0, s) \<Longrightarrow>
     reach s {}"
| reach_malloc:
    "reach s P \<Longrightarrow> el_malloc s n = Some (p, s') \<Longrightarrow>
     reach s' (if p = NULL then P else insert p P)"
| reach_free:
    "reach s P \<Longrightarrow> p \<in> P \<Longrightarrow> el_free s p = Some s' \<Longrightarrow> reach s' (P - {p})"
| reach_grow:
    "reach s P \<Longrightarrow> mmap_fits s npages r \<Longrightarrow>
     el_append_pages_to_heap s npages r = Some (rc, s') \<Longrightarrow> reach s' P"

section \<open>Basic facts\<close>

lemmas el_consts =
  HEAD_BYTES_def FOOT_BYTES_def EL_BLOCK_OVERHEAD_def EL_PAGE_BYTES_def
  EL_HEAP_INITIAL_SIZE_def EL_HEAP_START_ADDRESS_def EL_CTL_START_ADDRESS_def
  EL_AVAILABLE_def EL_USED_def EL_BEGIN_BLOCK_def EL_END_BLOCK_def EL_UNINITIALIZED_def
  AVAIL_BEG_ACTUAL_def AVAIL_END_ACTUAL_def USED_BEG_ACTUAL_def USED_END_ACTUAL_def

lemmas eval_defs =
  el_init_def zero_store_def el_init_blocklist_def el_malloc_def el_find_first_avail_def
  find_loop.simps el_remove_block_def el_split_block_def el_add_block_front_def el_free_def
  el_merge_block_with_above.simps el_append_pages_to_heap_def heap_walk.simps
  el_block_above_def el_block_below_def el_get_footer_def el_consts Let_def

subsection \<open>Word arithmetic without wrap-around\<close>

lemma unat_plus_nowrap:
  "unat (a :: 64 word) + unat b < 2 ^ 64 \<Longrightarrow> unat (a + b) = unat a + unat b"
  using unat_add_lem [of a b] by simp

lemma unat_64_bound: "unat (a :: 64 word) < 2 ^ 64"
  using unsigned_less [of a, where 'a = nat] by simp

lemma unat_overhead [simp]: "unat EL_BLOCK_OVERHEAD = 40"
  by (simp add: el_consts)

lemma unat_head_bytes [simp]: "unat HEAD_BYTES = 32"
  by (simp add: el_consts)

subsection \<open>The list operations, field by field\<close>

lemma add_front_fields:
  "heap_start (el_add_block_front s l b) = heap_start s"
  "heap_end (el_add_block_front s l b) = heap_end s"
  "heap_bytes (el_add_block_front s l b) = heap_bytes s"
  "head_size (el_add_block_front s l b) = head_size s"
  "head_state (el_add_block_front s l b) = head_state s"
  "foot_size (el_add_block_front s l b) = foot_size s"
  "head_next (el_add_block_front s l b) =
     (head_next s)(b := head_next s (beg (get_list s l)), beg (get_list s l) := b)"
  "head_prev (el_add_block_front s l b) =
     (head_prev s)(head_next s (beg (get_list s l)) := b, b := beg (get_list s l))"
  "get_list (el_add_block_front s l b) l =
     (get_list s l)\<lparr>len := len (get_list s l) + 1,
        bytes := bytes (get_list s l) + (head_size s b + EL_BLOCK_OVERHEAD)\<rparr>"
  by (cases l; simp add: el_add_block_front_def Let_def)+

lemma add_front_other:
  "used (el_add_block_front s AVAIL b) = used s"
  "avail (el_add_block_front s USED b) = avail s"
  "avail (el_add_block_front s AVAIL b) =
     (avail s)\<lparr>len := len (avail s) + 1,
        bytes := bytes (avail s) + (head_size s b + EL_BLOCK_OVERHEAD)\<rparr>"
  "used (el_add_block_front s USED b) =
     (used s)\<lparr>len := len (used s) + 1,
        bytes := bytes (used s) + (head_size s b + EL_BLOCK_OVERHEAD)\<rparr>"
  by (simp_all add: el_add_block_front_def Let_def)

lemma remove_fields:
  "heap_start (el_remove_block s l b) = heap_start s"
  "heap_end (el_remove_block s l b) = heap_end s"
  "heap_bytes (el_remove_block s l b) = heap_bytes s"
  "head_size (el_remove_block s l b) = head_size s"
  "head_state (el_remove_block s l b) = head_state s"
  "foot_size (el_remove_block s l b) = foot_size s"
  "head_prev (el_remove_block s l b) = (head_prev s)(head_next s b := head_prev s b)"
  "head_next (el_remove_block s l b) = (head_next s)(head_prev s b := head_next s b)"
  "get_list (el_remove_block s l b) l =
     (get_list s l)\<lparr>len := len (get_list s l) - 1,
        bytes := bytes (get_list s l) - (head_size s b + EL_BLOCK_OVERHEAD)\<rparr>"
  by (cases l; simp add: el_remove_block_def Let_def)+

lemma remove_other:
  "used (el_remove_block s AVAIL b) = used s"
  "avail (el_remove_block s USED b) = avail s"
  "avail (el_remove_block s AVAIL b) =
     (avail s)\<lparr>len := len (avail s) - 1,
        bytes := bytes (avail s) - (head_size s b + EL_BLOCK_OVERHEAD)\<rparr>"
  "used (el_remove_block s USED b) =
     (used s)\<lparr>len := len (used s) - 1,
        bytes := bytes (used s) - (head_size s b + EL_BLOCK_OVERHEAD)\<rparr>"
  by (simp_all add: el_remove_block_def Let_def)

lemma above_add_front [simp]:
  "el_block_above (el_add_block_front s l b) = el_block_above s"
  by (rule ext) (simp add: el_block_above_def add_front_fields)

lemma above_remove [simp]:
  "el_block_above (el_remove_block s l b) = el_block_above s"
  by (rule ext) (simp add: el_block_above_def remove_fields)

subsection \<open>The search loop\<close>

lemma find_loop_seg:
  "list_seg (head_next s) p xs (fin (avail s)) \<Longrightarrow>
   find_loop s p n =
     Some (case find (\<lambda>b. head_state s b = EL_AVAILABLE \<and> n \<le> head_size s b) xs of
             None \<Rightarrow> NULL | Some b \<Rightarrow> b)"
proof (induction xs arbitrary: p)
  case Nil
  then show ?case by (subst find_loop.simps) simp
next
  case (Cons x xs)
  then show ?case by (subst find_loop.simps) simp
qed

lemma find_loop_found:
  "find_loop s p n = Some b \<Longrightarrow>
   b \<noteq> NULL \<longrightarrow> head_state s b = EL_AVAILABLE \<and> n \<le> head_size s b"
  by (erule find_loop.raw_induct [rotated -1]) (auto split: if_splits)

subsection \<open>The initial state\<close>

lemma init_ok:
  "el_init (Mapped EL_CTL_START_ADDRESS) (Mapped EL_HEAP_START_ADDRESS) = Inr (0, init_state)"
  by (simp add: init_state_def el_init_def el_consts Let_def)

lemma init_state_eq:
  "init_state =
     \<lparr>heap_start = 0x600000000000, heap_end = 0x600000001000, heap_bytes = 4096,
      avail = \<lparr>beg = 0x700000000018, fin = 0x700000000038, len = 1, bytes = 4096\<rparr>,
      used = \<lparr>beg = 0x700000000078, fin = 0x700000000098, len = 0, bytes = 0\<rparr>,
      head_size = (\<lambda>_. 0)(0x700000000018 := - 1, 0x700000000038 := - 1,
        0x700000000078 := - 1, 0x700000000098 := - 1, 0x600000000000 := 4056),
      head_state = (\<lambda>_. CHR 0x00)(0x700000000018 := CHR ''B'', 0x700000000038 := CHR ''E'',
        0x700000000078 := CHR ''B'', 0x700000000098 := CHR ''E'', 0x600000000000 := CHR ''a''),
      head_next = (\<lambda>_. 0)(0x700000000038 := 0, 0x700000000078 := 0x700000000098,
        0x700000000098 := 0, 0x600000000000 := 0x700000000038,
        0x700000000018 := 0x600000000000),
      head_prev = (\<lambda>_. 0)(0x700000000018 := 0, 0x700000000078 := 0,
        0x700000000098 := 0x700000000078, 0x600000000000 := 0x700000000018,
        0x700000000038 := 0x600000000000),
      foot_size = (\<lambda>_. 0)(0x600000000FE0 + 24 := 4056)\<rparr>"
  by (simp add: init_state_def eval_defs fun_upd_twist cong: let_weak_cong)


subsection \<open>Splitting\<close>

lemma split_refused:
  "head_size s block < size_NEW + EL_BLOCK_OVERHEAD \<Longrightarrow>
   el_split_block s block size_NEW = (NULL, s)"
  by (simp add: el_split_block_def)

lemma split_guard_nat:
  assumes "unat n + 40 < 2 ^ 64"
  shows "(S < n + EL_BLOCK_OVERHEAD) = (unat S < unat n + 40)"
proof -
  have "unat (n + EL_BLOCK_OVERHEAD) = unat n + 40"
    using assms by (simp add: unat_plus_nowrap)
  then show ?thesis by (simp add: word_less_nat_alt)
qed

lemma split_arith:
  fixes n S b e :: "64 word"
  assumes "unat n + 40 \<le> unat S" and "unat b + unat S + 40 \<le> unat e"
  shows "\<not> e \<le> b + (n + 40)" and "b + (n + 40) \<noteq> 0" and "n + 40 \<noteq> 0" and "n \<noteq> S"
    and "unat n + unat (S - (n + 40)) + 40 = unat S"
proof -
  have e: "unat e < 2 ^ 64" by (rule unat_64_bound)
  have 1: "unat (n + 40) = unat n + 40" using assms e by (simp add: unat_plus_nowrap)
  have 2: "unat (b + (n + 40)) = unat b + (unat n + 40)"
    using assms e 1 by (simp add: unat_plus_nowrap)
  have 3: "n + 40 \<le> S" using assms 1 by (simp add: word_le_nat_alt)
  have 4: "unat (S - (n + 40)) = unat S - (unat n + 40)" using 3 1 by (simp add: unat_sub)
  show "\<not> e \<le> b + (n + 40)" using assms 2 by (simp add: word_le_nat_alt)
  show "b + (n + 40) \<noteq> 0" using 2 by (auto simp: word_unat_eq_iff)
  show "n + 40 \<noteq> 0" using 1 by (auto simp: word_unat_eq_iff)
  show "n \<noteq> S" using assms by auto
  show "unat n + unat (S - (n + 40)) + 40 = unat S" using 4 assms by simp
qed

lemma split_done:
  assumes fits: "unat size_NEW + 40 \<le> unat (head_size s block)"
    and arena: "unat block + unat (head_size s block) + 40 \<le> unat (heap_end s)"
  shows "el_split_block s block size_NEW =
     (block + (size_NEW + 40),
      s\<lparr>head_size := (head_size s)
           (block := size_NEW,
            block + (size_NEW + 40) := head_size s block - (size_NEW + 40)),
        head_state := (head_state s)(block + (size_NEW + 40) := EL_AVAILABLE),
        foot_size := (foot_size s)
           (block + (32 + size_NEW) := size_NEW,
            block + (32 + head_size s block) := head_size s block - (size_NEW + 40))\<rparr>)"
proof -
  note a = split_arith [OF fits arena]
  have g: "\<not> head_size s block < size_NEW + EL_BLOCK_OVERHEAD"
    using fits unat_64_bound [of "head_size s block"] by (simp add: split_guard_nat)
  show ?thesis
    using a(1,2,3) g
    by (simp add: el_split_block_def el_get_footer_def el_block_above_def el_consts Let_def)
qed

section \<open>The invariant\<close>

subsection \<open>Doubly linked lists\<close>

lemma dlist_upd_next:
  "a \<noteq> p \<Longrightarrow> a \<notin> set xs \<Longrightarrow> dlist (nxt(a := v)) prv p xs e = dlist nxt prv p xs e"
  by (induction xs arbitrary: p) auto

lemma dlist_upd_prev:
  "a \<noteq> e \<Longrightarrow> a \<notin> set xs \<Longrightarrow> dlist nxt (prv(a := v)) p xs e = dlist nxt prv p xs e"
  by (induction xs arbitrary: p) auto

lemma dlist_seg:
  "dlist nxt prv p xs e \<Longrightarrow> e \<notin> set xs \<Longrightarrow> list_seg nxt p xs e"
  by (induction xs arbitrary: p) auto

lemma dlist_add_front:
  assumes "dlist nxt prv p xs e" and "distinct xs" and "e \<notin> set xs" and "p \<notin> set xs"
    and "b \<notin> set xs" and "b \<noteq> p" and "b \<noteq> e"
  shows "dlist (nxt(b := nxt p, p := b)) (prv(nxt p := b, b := p)) p (b # xs) e"
proof (cases xs)
  case Nil
  then show ?thesis using assms by auto
next
  case (Cons x xs')
  then have d: "dlist nxt prv x xs' e" and x: "nxt p = x" using assms(1) by auto
  have n: "b \<noteq> x" "b \<notin> set xs'" "p \<noteq> x" "p \<notin> set xs'" "x \<noteq> e" "x \<notin> set xs'"
    using assms Cons by auto
  have "dlist (nxt(b := nxt p, p := b)) (prv(nxt p := b, b := p)) x xs' e"
    using d n assms(7) unfolding x by (simp add: dlist_upd_next dlist_upd_prev)
  then show ?thesis using assms Cons x by auto
qed

lemma dlist_prev_mem:
  "dlist nxt prv p xs e \<Longrightarrow> b \<in> set xs \<Longrightarrow> prv b \<in> insert p (set xs)"
  by (induction xs arbitrary: p) auto

lemma dlist_next_hd:
  "dlist nxt prv p xs e \<Longrightarrow> nxt p \<in> insert e (set xs)"
  by (cases xs) auto

lemma dlist_next_mem:
  "dlist nxt prv p xs e \<Longrightarrow> b \<in> set xs \<Longrightarrow> nxt b \<in> insert e (set xs)"
  by (induction xs arbitrary: p) (auto dest: dlist_next_hd)

lemma dlist_remove:
  assumes "dlist nxt prv p xs e" and "b \<in> set xs" and "distinct xs"
    and "p \<notin> set xs" and "e \<notin> set xs"
  shows "dlist (nxt(prv b := nxt b)) (prv(nxt b := prv b)) p (remove1 b xs) e"
  using assms
proof (induction xs arbitrary: p)
  case Nil
  then show ?case by simp
next
  case (Cons x xs)
  show ?case
  proof (cases "x = b")
    case True
    have d: "dlist nxt prv b xs e" and pb: "prv b = p" using Cons.prems True by auto
    have nb: "nxt b \<in> insert e (set xs)" using d by (rule dlist_next_hd)
    have "dlist (nxt(p := nxt b)) (prv(nxt b := p)) p xs e"
    proof (cases xs)
      case Nil
      then show ?thesis using d by auto
    next
      case (Cons y ys)
      then have "dlist nxt prv y ys e" and "nxt b = y" using d by auto
      moreover have "p \<noteq> y" "p \<notin> set ys" "y \<noteq> e" "y \<notin> set ys"
        using Cons Cons.prems True by auto
      ultimately have "dlist (nxt(p := y)) (prv(y := p)) y ys e"
        by (simp add: dlist_upd_next dlist_upd_prev)
      then show ?thesis using Cons \<open>nxt b = y\<close> by simp
    qed
    moreover have "remove1 b (x # xs) = xs" using True by simp
    ultimately show ?thesis unfolding pb by (simp only:)
  next
    case False
    then have bx: "b \<in> set xs" using Cons.prems by auto
    have d: "dlist nxt prv x xs e" and np: "nxt p = x" and px: "prv x = p"
      using Cons.prems by auto
    have dx: "distinct xs" and xx: "x \<notin> set xs" and ex: "e \<notin> set xs"
      using Cons.prems by auto
    have ih: "dlist (nxt(prv b := nxt b)) (prv(nxt b := prv b)) x (remove1 b xs) e"
      by (rule Cons.IH [OF d bx dx xx ex])
    have 1: "prv b \<noteq> p"
      using dlist_prev_mem [OF d bx] Cons.prems by auto
    have 2: "nxt b \<noteq> x"
      using dlist_next_mem [OF d bx] Cons.prems by auto
    have A: "(nxt(prv b := nxt b)) p = x" using 1 np by simp
    have B: "(prv(nxt b := prv b)) x = p" using 2 px by simp
    have r: "remove1 b (x # xs) = x # remove1 b xs" using False by simp
    show ?thesis unfolding r dlist.simps using ih A B by blast
  qed
qed

subsection \<open>Blocks that tile a segment\<close>

lemma blk_end_eq: "blk_end s b = unat b + unat (head_size s b) + 40"
  by (simp add: blk_end_def)

lemma unat_above:
  "blk_end s b \<le> unat (e :: addr) \<Longrightarrow>
   unat (b + (head_size s b + EL_BLOCK_OVERHEAD)) = blk_end s b"
proof -
  assume a: "blk_end s b \<le> unat e"
  have e: "unat e < 2 ^ 64" by (rule unat_64_bound)
  have 1: "unat (head_size s b + EL_BLOCK_OVERHEAD) = unat (head_size s b) + 40"
    using a e by (simp add: unat_plus_nowrap blk_end_eq)
  show ?thesis using a e 1 by (simp add: unat_plus_nowrap blk_end_eq)
qed

lemma unat_footer:
  "blk_end s b \<le> unat (e :: addr) \<Longrightarrow> unat (el_get_footer s b) = blk_end s b - 8"
proof -
  assume a: "blk_end s b \<le> unat e"
  have e: "unat e < 2 ^ 64" by (rule unat_64_bound)
  have 1: "unat (HEAD_BYTES + head_size s b) = 32 + unat (head_size s b)"
    using a e by (simp add: unat_plus_nowrap blk_end_eq)
  show ?thesis using a e 1 by (simp add: unat_plus_nowrap blk_end_eq el_get_footer_def)
qed

lemmas tiles_Cons = tiles.simps(2)

lemma tiles_le: "tiles s a bs e \<Longrightarrow> unat a \<le> unat e"
proof (induction bs arbitrary: a)
  case Nil
  then show ?case by simp
next
  case (Cons b bs)
  then have "blk_end s b \<le> unat e" and "b = a"
    and "unat (b + (head_size s b + EL_BLOCK_OVERHEAD)) \<le> unat e"
    by (auto simp: tiles_Cons)
  then show ?case by (simp add: blk_end_eq)
qed

lemma tiles_mem:
  "tiles s a bs e \<Longrightarrow> b \<in> set bs \<Longrightarrow>
   unat a \<le> unat b \<and> blk_end s b \<le> unat e
   \<and> foot_size s (el_get_footer s b) = head_size s b
   \<and> (head_state s b = EL_AVAILABLE \<or> head_state s b = EL_USED)"
proof (induction bs arbitrary: a)
  case Nil
  then show ?case by simp
next
  case (Cons x bs)
  then have x: "x = a" "blk_end s x \<le> unat e"
    and t: "tiles s (x + (head_size s x + EL_BLOCK_OVERHEAD)) bs e"
    by (auto simp: tiles_Cons)
  show ?case
  proof (cases "b = x")
    case True
    then show ?thesis using Cons.prems by (auto simp: tiles_Cons)
  next
    case False
    then have "b \<in> set bs" using Cons.prems by simp
    from Cons.IH [OF t this] unat_above [OF x(2)] x
    show ?thesis by (simp add: blk_end_eq)
  qed
qed

lemma tiles_above_lt:
  "tiles s a (x # bs) e \<Longrightarrow> b \<in> set bs \<Longrightarrow> blk_end s x \<le> unat b"
proof -
  assume a: "tiles s a (x # bs) e" and b: "b \<in> set bs"
  then have x: "blk_end s x \<le> unat e"
    and t: "tiles s (x + (head_size s x + EL_BLOCK_OVERHEAD)) bs e"
    by (auto simp: tiles_Cons)
  from tiles_mem [OF t b] unat_above [OF x] show ?thesis by simp
qed

lemma tiles_distinct: "tiles s a bs e \<Longrightarrow> distinct bs"
proof (induction bs arbitrary: a)
  case Nil
  then show ?case by simp
next
  case (Cons x bs)
  then have t: "tiles s (x + (head_size s x + EL_BLOCK_OVERHEAD)) bs e"
    by (auto simp: tiles_Cons)
  have "x \<notin> set bs"
  proof
    assume "x \<in> set bs"
    from tiles_above_lt [OF Cons.prems this] show False by (simp add: blk_end_eq)
  qed
  then show ?case using Cons.IH [OF t] by simp
qed

lemma tiles_append:
  "tiles s a (xs @ ys) e = (\<exists>m. tiles s a xs m \<and> tiles s m ys e)"
proof (induction xs arbitrary: a)
  case Nil
  then show ?case by simp
next
  case (Cons x xs)
  show ?case
  proof
    assume l: "tiles s a ((x # xs) @ ys) e"
    then have x: "x = a" "blk_end s x \<le> unat e"
      "foot_size s (el_get_footer s x) = head_size s x"
      "head_state s x = EL_AVAILABLE \<or> head_state s x = EL_USED"
      and t: "tiles s (x + (head_size s x + EL_BLOCK_OVERHEAD)) (xs @ ys) e"
      by (auto simp: tiles_Cons)
    from t Cons.IH obtain m where
      m: "tiles s (x + (head_size s x + EL_BLOCK_OVERHEAD)) xs m" "tiles s m ys e"
      by blast
    have "blk_end s x \<le> unat m" using tiles_le [OF m(1)] unat_above [OF x(2)] by simp
    then have "tiles s a (x # xs) m" using x m(1) by (simp add: tiles_Cons)
    then show "\<exists>m. tiles s a (x # xs) m \<and> tiles s m ys e" using m(2) by blast
  next
    assume "\<exists>m. tiles s a (x # xs) m \<and> tiles s m ys e"
    then obtain m where m: "tiles s a (x # xs) m" "tiles s m ys e" by blast
    then have x: "x = a" "blk_end s x \<le> unat m"
      "foot_size s (el_get_footer s x) = head_size s x"
      "head_state s x = EL_AVAILABLE \<or> head_state s x = EL_USED"
      and t: "tiles s (x + (head_size s x + EL_BLOCK_OVERHEAD)) xs m"
      by (auto simp: tiles_Cons)
    have "tiles s (x + (head_size s x + EL_BLOCK_OVERHEAD)) (xs @ ys) e"
      using Cons.IH t m(2) by blast
    moreover have "blk_end s x \<le> unat e" using x(2) tiles_le [OF m(2)] by simp
    ultimately show "tiles s a ((x # xs) @ ys) e" using x by (simp add: tiles_Cons)
  qed
qed

lemma tiles_cong:
  assumes "\<And>b. b \<in> set bs \<Longrightarrow> head_size s' b = head_size s b"
    and "\<And>b. b \<in> set bs \<Longrightarrow> head_state s' b = head_state s b"
    and "\<And>b. b \<in> set bs \<Longrightarrow> foot_size s' (el_get_footer s b) = foot_size s (el_get_footer s b)"
  shows "tiles s' a bs e = tiles s a bs e"
  using assms
proof (induction bs arbitrary: a)
  case Nil
  then show ?case by simp
next
  case (Cons x bs)
  have "tiles s' (x + (head_size s x + EL_BLOCK_OVERHEAD)) bs e
        = tiles s (x + (head_size s x + EL_BLOCK_OVERHEAD)) bs e"
    using Cons.prems by (intro Cons.IH) auto
  moreover have "head_size s' x = head_size s x" "head_state s' x = head_state s x"
    "foot_size s' (el_get_footer s x) = foot_size s (el_get_footer s x)"
    using Cons.prems by auto
  ultimately show ?case by (simp add: el_get_footer_def blk_end_def)
qed

subsection \<open>Neighbours in a tiling\<close>

lemma tiles_above:
  assumes "tiles s a (pre @ x # h # post) (heap_end s)"
  shows "el_block_above s x = h"
proof -
  from assms obtain m where t: "tiles s m (x # h # post) (heap_end s)"
    by (auto simp: tiles_append)
  then have x: "blk_end s x \<le> unat (heap_end s)"
    and h: "h = x + (head_size s x + EL_BLOCK_OVERHEAD)"
    and hb: "blk_end s h \<le> unat (heap_end s)"
    by auto
  have "unat h < unat (heap_end s)" using hb by (simp add: blk_end_eq)
  then have "\<not> heap_end s \<le> h" by (simp add: word_le_nat_alt)
  then show ?thesis using h by (simp add: el_block_above_def Let_def)
qed

lemma tiles_above_last:
  assumes "tiles s a (pre @ [x]) (heap_end s)"
  shows "el_block_above s x = NULL"
proof -
  from assms obtain m where t: "tiles s m [x] (heap_end s)"
    by (auto simp: tiles_append)
  then have "x + (head_size s x + EL_BLOCK_OVERHEAD) = heap_end s"
    unfolding tiles.simps by blast
  then show ?thesis by (simp add: el_block_above_def Let_def)
qed

lemma foot_below:
  "x = y + (head_size s y + EL_BLOCK_OVERHEAD) \<Longrightarrow> x - FOOT_BYTES = el_get_footer s y"
  by (simp add: el_get_footer_def el_consts)

lemma tiles_below:
  assumes "tiles s (heap_start s) (pre @ y # x # post) e"
  shows "el_block_below s x = y"
proof -
  from assms obtain m where p: "tiles s (heap_start s) pre m" and t: "tiles s m (y # x # post) e"
    by (auto simp: tiles_append)
  then have y: "blk_end s y \<le> unat e" "y = m"
    and x: "x = y + (head_size s y + EL_BLOCK_OVERHEAD)"
    and f: "foot_size s (el_get_footer s y) = head_size s y"
    by auto
  have "unat (heap_start s) \<le> unat y" using tiles_le [OF p] y by simp
  then have "unat (heap_start s) < unat (el_get_footer s y)"
    using unat_footer [OF y(1)] by (simp add: blk_end_eq)
  then have "\<not> el_get_footer s y \<le> heap_start s" by (simp add: word_le_nat_alt)
  then show ?thesis using foot_below [OF x] f x
    by (simp add: el_block_below_def Let_def)
qed

lemma tiles_below_first:
  assumes "tiles s (heap_start s) (x # post) e" and "8 \<le> unat (heap_start s)"
  shows "el_block_below s x = NULL"
proof -
  have x: "x = heap_start s" using assms by simp
  have "FOOT_BYTES \<le> x" using assms(2) x by (simp add: word_le_nat_alt el_consts)
  then have "unat (x - FOOT_BYTES) = unat x - 8" by (simp add: unat_sub el_consts)
  then have "x - FOOT_BYTES \<le> heap_start s" using x by (simp add: word_le_nat_alt)
  then show ?thesis by (simp add: el_block_below_def Let_def)
qed

subsection \<open>The two lists\<close>

lemma sentinels_distinct:
  "AVAIL_BEG_ACTUAL \<noteq> AVAIL_END_ACTUAL" "AVAIL_BEG_ACTUAL \<noteq> USED_BEG_ACTUAL"
  "AVAIL_BEG_ACTUAL \<noteq> USED_END_ACTUAL" "AVAIL_END_ACTUAL \<noteq> USED_BEG_ACTUAL"
  "AVAIL_END_ACTUAL \<noteq> USED_END_ACTUAL" "USED_BEG_ACTUAL \<noteq> USED_END_ACTUAL"
  "AVAIL_END_ACTUAL \<noteq> AVAIL_BEG_ACTUAL" "USED_BEG_ACTUAL \<noteq> AVAIL_BEG_ACTUAL"
  "USED_END_ACTUAL \<noteq> AVAIL_BEG_ACTUAL" "USED_BEG_ACTUAL \<noteq> AVAIL_END_ACTUAL"
  "USED_END_ACTUAL \<noteq> AVAIL_END_ACTUAL" "USED_END_ACTUAL \<noteq> USED_BEG_ACTUAL"
  by (simp_all add: el_consts)

lemma dlist_cong:
  assumes "\<And>a. a = p \<or> a \<in> set xs \<Longrightarrow> nxt' a = nxt a"
    and "\<And>a. a = e \<or> a \<in> set xs \<Longrightarrow> prv' a = prv a"
  shows "dlist nxt' prv' p xs e = dlist nxt prv p xs e"
  using assms
proof (induction xs arbitrary: p)
  case Nil
  then show ?case by simp
next
  case (Cons x xs)
  have "dlist nxt' prv' x xs e = dlist nxt prv x xs e"
    using Cons.prems by (intro Cons.IH) auto
  moreover have "nxt' p = nxt p" "prv' x = prv x" using Cons.prems by auto
  ultimately show ?case by simp
qed

lemma list_ok_frame:
  assumes "list_ok s l xs"
    and "\<And>a. a = beg l \<or> a \<in> set xs \<Longrightarrow> head_next s' a = head_next s a"
    and "\<And>a. a = fin l \<or> a \<in> set xs \<Longrightarrow> head_prev s' a = head_prev s a"
    and "\<And>a. a \<in> set xs \<Longrightarrow> head_size s' a = head_size s a"
  shows "list_ok s' l xs"
proof -
  have "dlist (head_next s') (head_prev s') (beg l) xs (fin l)
        = dlist (head_next s) (head_prev s) (beg l) xs (fin l)"
    using assms(2,3) by (intro dlist_cong) auto
  moreover have "sum_list (map (\<lambda>b. head_size s' b + EL_BLOCK_OVERHEAD) xs)
               = sum_list (map (\<lambda>b. head_size s b + EL_BLOCK_OVERHEAD) xs)"
    using assms(4) by (induction xs) auto
  ultimately show ?thesis using assms(1) unfolding list_ok_def by simp
qed

lemma list_ok_remove:
  assumes ok: "list_ok s l xs" and b: "b \<in> set xs" and d: "distinct xs"
    and nb: "beg l \<notin> set xs" and ne: "fin l \<notin> set xs"
    and n: "head_next s' = (head_next s)(head_prev s b := head_next s b)"
    and p: "head_prev s' = (head_prev s)(head_next s b := head_prev s b)"
    and z: "head_size s' = head_size s"
    and l': "l' = l\<lparr>len := len l - 1,
                      bytes := bytes l - (head_size s b + EL_BLOCK_OVERHEAD)\<rparr>"
  shows "list_ok s' l' (remove1 b xs)"
proof -
  have dl: "dlist (head_next s) (head_prev s) (beg l) xs (fin l)"
    using ok by (simp add: list_ok_def)
  have 1: "dlist (head_next s') (head_prev s') (beg l') (remove1 b xs) (fin l')"
    using dlist_remove [OF dl b d nb ne] by (simp add: n p l')
  obtain k where k: "length xs = Suc k" using b by (cases xs) auto
  have 2: "len l' = of_nat (length (remove1 b xs))"
    using ok b k by (simp add: list_ok_def l' length_remove1)
  have "sum_list (map (\<lambda>b. head_size s b + EL_BLOCK_OVERHEAD) xs)
      = (head_size s b + EL_BLOCK_OVERHEAD)
        + sum_list (map (\<lambda>b. head_size s b + EL_BLOCK_OVERHEAD) (remove1 b xs))"
    using b by (rule sum_list_map_remove1)
  then have 3: "bytes l' = sum_list (map (\<lambda>b. head_size s' b + EL_BLOCK_OVERHEAD) (remove1 b xs))"
    using ok by (simp add: list_ok_def l' z)
  show ?thesis using 1 2 3 by (simp add: list_ok_def)
qed

lemma list_ok_add:
  assumes ok: "list_ok s l xs" and d: "distinct xs"
    and nb: "beg l \<notin> set xs" and ne: "fin l \<notin> set xs"
    and b: "b \<notin> set xs" "b \<noteq> beg l" "b \<noteq> fin l"
    and n: "head_next s' = (head_next s)(b := head_next s (beg l), beg l := b)"
    and p: "head_prev s' = (head_prev s)(head_next s (beg l) := b, b := beg l)"
    and z: "head_size s' = head_size s"
    and l': "l' = l\<lparr>len := len l + 1,
                      bytes := bytes l + (head_size s b + EL_BLOCK_OVERHEAD)\<rparr>"
  shows "list_ok s' l' (b # xs)"
proof -
  have dl: "dlist (head_next s) (head_prev s) (beg l) xs (fin l)"
    using ok by (simp add: list_ok_def)
  have 1: "dlist (head_next s') (head_prev s') (beg l') (b # xs) (fin l')"
    using dlist_add_front [OF dl d ne nb b] unfolding n p l' by simp
  show ?thesis using 1 ok by (simp add: list_ok_def l' z)
qed

lemma lists_okD:
  assumes "lists_ok s fl ul"
  shows "beg (avail s) = AVAIL_BEG_ACTUAL" "fin (avail s) = AVAIL_END_ACTUAL"
    "beg (used s) = USED_BEG_ACTUAL" "fin (used s) = USED_END_ACTUAL"
    "list_ok s (avail s) fl" "list_ok s (used s) ul"
    "distinct fl" "distinct ul" "set fl \<inter> set ul = {}"
    "AVAIL_BEG_ACTUAL \<notin> set fl" "AVAIL_END_ACTUAL \<notin> set fl"
    "USED_BEG_ACTUAL \<notin> set fl" "USED_END_ACTUAL \<notin> set fl"
    "AVAIL_BEG_ACTUAL \<notin> set ul" "AVAIL_END_ACTUAL \<notin> set ul"
    "USED_BEG_ACTUAL \<notin> set ul" "USED_END_ACTUAL \<notin> set ul"
  using assms by (auto simp: lists_ok_def sentinels_def)

lemma lists_okI:
  assumes "beg (avail s) = AVAIL_BEG_ACTUAL" "fin (avail s) = AVAIL_END_ACTUAL"
    "beg (used s) = USED_BEG_ACTUAL" "fin (used s) = USED_END_ACTUAL"
    "list_ok s (avail s) fl" "list_ok s (used s) ul"
    "distinct fl" "distinct ul" "set fl \<inter> set ul = {}"
    "set fl \<inter> sentinels = {}" "set ul \<inter> sentinels = {}"
  shows "lists_ok s fl ul"
  using assms by (auto simp: lists_ok_def)

lemma lists_ok_sent:
  assumes "lists_ok s fl ul"
  shows "set fl \<inter> sentinels = {}" "set ul \<inter> sentinels = {}"
  using assms by (auto simp: lists_ok_def)

lemma lists_ok_remove_avail:
  assumes ok: "lists_ok s fl ul" and b: "b \<in> set fl"
  shows "lists_ok (el_remove_block s AVAIL b) (remove1 b fl) ul"
proof -
  note d = lists_okD [OF ok]
  let ?s = "el_remove_block s AVAIL b"
  have dl: "dlist (head_next s) (head_prev s) AVAIL_BEG_ACTUAL fl AVAIL_END_ACTUAL"
    using d(5) d(1,2) by (simp add: list_ok_def)
  have pm: "head_prev s b \<in> insert AVAIL_BEG_ACTUAL (set fl)"
    using dlist_prev_mem [OF dl b] .
  have nm: "head_next s b \<in> insert AVAIL_END_ACTUAL (set fl)"
    using dlist_next_mem [OF dl b] .
  have sb: "beg (avail s) \<notin> set fl" "fin (avail s) \<notin> set fl" using d by auto
  have 1: "list_ok ?s (avail ?s) (remove1 b fl)"
    using d(5) b d(7) sb
    by (rule list_ok_remove) (simp_all add: remove_fields remove_other)
  have 2: "list_ok ?s (used ?s) ul"
    unfolding remove_other
  proof (rule list_ok_frame [OF d(6)])
    fix a assume "a = beg (used s) \<or> a \<in> set ul"
    then have "a \<noteq> head_prev s b" using pm d sentinels_distinct by auto
    then show "head_next ?s a = head_next s a" by (simp add: remove_fields)
  next
    fix a assume "a = fin (used s) \<or> a \<in> set ul"
    then have "a \<noteq> head_next s b" using nm d sentinels_distinct by auto
    then show "head_prev ?s a = head_prev s a" by (simp add: remove_fields)
  next
    fix a show "head_size ?s a = head_size s a" by (simp add: remove_fields)
  qed
  show ?thesis
    using 1 2 d lists_ok_sent [OF ok]
    by (intro lists_okI) (auto simp: remove_other)
qed

lemma lists_ok_remove_used:
  assumes ok: "lists_ok s fl ul" and b: "b \<in> set ul"
  shows "lists_ok (el_remove_block s USED b) fl (remove1 b ul)"
proof -
  note d = lists_okD [OF ok]
  let ?s = "el_remove_block s USED b"
  have dl: "dlist (head_next s) (head_prev s) USED_BEG_ACTUAL ul USED_END_ACTUAL"
    using d(6) d(3,4) by (simp add: list_ok_def)
  have pm: "head_prev s b \<in> insert USED_BEG_ACTUAL (set ul)"
    using dlist_prev_mem [OF dl b] .
  have nm: "head_next s b \<in> insert USED_END_ACTUAL (set ul)"
    using dlist_next_mem [OF dl b] .
  have sb: "beg (used s) \<notin> set ul" "fin (used s) \<notin> set ul" using d by auto
  have 1: "list_ok ?s (used ?s) (remove1 b ul)"
    using d(6) b d(8) sb
    by (rule list_ok_remove) (simp_all add: remove_fields remove_other)
  have 2: "list_ok ?s (avail ?s) fl"
    unfolding remove_other
  proof (rule list_ok_frame [OF d(5)])
    fix a assume "a = beg (avail s) \<or> a \<in> set fl"
    then have "a \<noteq> head_prev s b" using pm d sentinels_distinct by auto
    then show "head_next ?s a = head_next s a" by (simp add: remove_fields)
  next
    fix a assume "a = fin (avail s) \<or> a \<in> set fl"
    then have "a \<noteq> head_next s b" using nm d sentinels_distinct by auto
    then show "head_prev ?s a = head_prev s a" by (simp add: remove_fields)
  next
    fix a show "head_size ?s a = head_size s a" by (simp add: remove_fields)
  qed
  show ?thesis
    using 1 2 d lists_ok_sent [OF ok]
    by (intro lists_okI) (auto simp: remove_other)
qed

lemma lists_ok_add_avail:
  assumes ok: "lists_ok s fl ul" and b: "b \<notin> set fl" "b \<notin> set ul" "b \<notin> sentinels"
  shows "lists_ok (el_add_block_front s AVAIL b) (b # fl) ul"
proof -
  note d = lists_okD [OF ok]
  let ?s = "el_add_block_front s AVAIL b"
  have bs: "b \<noteq> AVAIL_BEG_ACTUAL" "b \<noteq> AVAIL_END_ACTUAL" "b \<noteq> USED_BEG_ACTUAL"
    "b \<noteq> USED_END_ACTUAL"
    using b(3) by (auto simp: sentinels_def)
  have dl: "dlist (head_next s) (head_prev s) AVAIL_BEG_ACTUAL fl AVAIL_END_ACTUAL"
    using d(5) d(1,2) by (simp add: list_ok_def)
  have nm: "head_next s AVAIL_BEG_ACTUAL \<in> insert AVAIL_END_ACTUAL (set fl)"
    using dlist_next_hd [OF dl] .
  have sb: "beg (avail s) \<notin> set fl" "fin (avail s) \<notin> set fl"
    "b \<noteq> beg (avail s)" "b \<noteq> fin (avail s)" using d bs by auto
  have 1: "list_ok ?s (avail ?s) (b # fl)"
    using d(5) d(7) sb(1,2) b(1) sb(3,4)
    by (rule list_ok_add) (simp_all add: add_front_fields add_front_other)
  have 2: "list_ok ?s (used ?s) ul"
    unfolding add_front_other
  proof (rule list_ok_frame [OF d(6)])
    fix a assume "a = beg (used s) \<or> a \<in> set ul"
    then have "a \<noteq> b" "a \<noteq> AVAIL_BEG_ACTUAL" using b bs d sentinels_distinct by auto
    then show "head_next ?s a = head_next s a" by (simp add: add_front_fields d(1))
  next
    fix a assume "a = fin (used s) \<or> a \<in> set ul"
    then have "a \<noteq> b" "a \<noteq> head_next s AVAIL_BEG_ACTUAL"
      using nm b bs d sentinels_distinct by auto
    then show "head_prev ?s a = head_prev s a" by (simp add: add_front_fields d(1))
  next
    fix a show "head_size ?s a = head_size s a" by (simp add: add_front_fields)
  qed
  show ?thesis
    using 1 2 d b lists_ok_sent [OF ok]
    by (intro lists_okI) (auto simp: add_front_other)
qed

lemma lists_ok_add_used:
  assumes ok: "lists_ok s fl ul" and b: "b \<notin> set fl" "b \<notin> set ul" "b \<notin> sentinels"
  shows "lists_ok (el_add_block_front s USED b) fl (b # ul)"
proof -
  note d = lists_okD [OF ok]
  let ?s = "el_add_block_front s USED b"
  have bs: "b \<noteq> AVAIL_BEG_ACTUAL" "b \<noteq> AVAIL_END_ACTUAL" "b \<noteq> USED_BEG_ACTUAL"
    "b \<noteq> USED_END_ACTUAL"
    using b(3) by (auto simp: sentinels_def)
  have dl: "dlist (head_next s) (head_prev s) USED_BEG_ACTUAL ul USED_END_ACTUAL"
    using d(6) d(3,4) by (simp add: list_ok_def)
  have nm: "head_next s USED_BEG_ACTUAL \<in> insert USED_END_ACTUAL (set ul)"
    using dlist_next_hd [OF dl] .
  have sb: "beg (used s) \<notin> set ul" "fin (used s) \<notin> set ul"
    "b \<noteq> beg (used s)" "b \<noteq> fin (used s)" using d bs by auto
  have 1: "list_ok ?s (used ?s) (b # ul)"
    using d(6) d(8) sb(1,2) b(2) sb(3,4)
    by (rule list_ok_add) (simp_all add: add_front_fields add_front_other)
  have 2: "list_ok ?s (avail ?s) fl"
    unfolding add_front_other
  proof (rule list_ok_frame [OF d(5)])
    fix a assume "a = beg (avail s) \<or> a \<in> set fl"
    then have "a \<noteq> b" "a \<noteq> USED_BEG_ACTUAL" using b bs d sentinels_distinct by auto
    then show "head_next ?s a = head_next s a" by (simp add: add_front_fields d(3))
  next
    fix a assume "a = fin (avail s) \<or> a \<in> set fl"
    then have "a \<noteq> b" "a \<noteq> head_next s USED_BEG_ACTUAL"
      using nm b bs d sentinels_distinct by auto
    then show "head_prev ?s a = head_prev s a" by (simp add: add_front_fields d(3))
  next
    fix a show "head_size ?s a = head_size s a" by (simp add: add_front_fields)
  qed
  show ?thesis
    using 1 2 d b lists_ok_sent [OF ok]
    by (intro lists_okI) (auto simp: add_front_other)
qed

text \<open>Changes that no list looks at.\<close>

lemma lists_ok_store:
  assumes ok: "lists_ok s fl ul"
    and "head_next s' = head_next s" "head_prev s' = head_prev s"
    and "avail s' = avail s" "used s' = used s"
    and "\<And>a. a \<in> set fl \<union> set ul \<Longrightarrow> head_size s' a = head_size s a"
  shows "lists_ok s' fl ul"
proof -
  note d = lists_okD [OF ok]
  have 1: "list_ok s' (avail s') fl"
    unfolding assms(4) using assms by (intro list_ok_frame [OF d(5)]) auto
  have 2: "list_ok s' (used s') ul"
    unfolding assms(5) using assms by (intro list_ok_frame [OF d(6)]) auto
  show ?thesis
    using 1 2 d lists_ok_sent [OF ok] assms(4,5)
    by (intro lists_okI) auto
qed

subsection \<open>Consequences of well-formedness\<close>

lemma wfD:
  assumes "wf s bs fl ul"
  shows "arena_ok s" "tiles s (heap_start s) bs (heap_end s)" "lists_ok s fl ul"
    "set fl = {b \<in> set bs. head_state s b = EL_AVAILABLE}"
    "set ul = {b \<in> set bs. head_state s b = EL_USED}"
  using assms by (simp_all add: wf_def)

lemma sentinel_ge: "a \<in> sentinels \<Longrightarrow> unat EL_CTL_START_ADDRESS \<le> unat a"
  by (auto simp: sentinels_def el_consts)

lemma wf_block:
  assumes "wf s bs fl ul" and "b \<in> set bs"
  shows "unat (heap_start s) \<le> unat b" "blk_end s b \<le> unat (heap_end s)"
    "foot_size s (el_get_footer s b) = head_size s b"
    "head_state s b = EL_AVAILABLE \<or> head_state s b = EL_USED"
    "b \<notin> sentinels" "b \<noteq> NULL"
proof -
  note w = wfD [OF assms(1)]
  note m = tiles_mem [OF w(2) assms(2)]
  show "unat (heap_start s) \<le> unat b" "blk_end s b \<le> unat (heap_end s)"
    "foot_size s (el_get_footer s b) = head_size s b"
    "head_state s b = EL_AVAILABLE \<or> head_state s b = EL_USED"
    using m by auto
  have "unat b < unat EL_CTL_START_ADDRESS"
    using m w(1) by (simp add: arena_ok_def blk_end_eq)
  then show "b \<notin> sentinels" using sentinel_ge [of b] by auto
  have "8 \<le> unat b" using m w(1) by (simp add: arena_ok_def)
  then show "b \<noteq> NULL" by auto
qed

lemma below_heap_not_sentinel:
  "arena_ok s \<Longrightarrow> unat a < unat (heap_end s) \<Longrightarrow> a \<notin> sentinels"
  using sentinel_ge [of a] by (auto simp: arena_ok_def)

lemma merge_step_fields:
  "heap_start (merge_step s x) = heap_start s"
  "heap_end (merge_step s x) = heap_end s"
  "heap_bytes (merge_step s x) = heap_bytes s"
  "head_state (merge_step s x) = head_state s"
  "head_size (merge_step s x) =
     (head_size s)(x := head_size s x + head_size s (el_block_above s x) + EL_BLOCK_OVERHEAD)"
  "foot_size (merge_step s x) =
     (foot_size s)(x + (HEAD_BYTES
         + (head_size s x + head_size s (el_block_above s x) + EL_BLOCK_OVERHEAD))
       := head_size s x + head_size s (el_block_above s x) + EL_BLOCK_OVERHEAD)"
  "used (merge_step s x) = used s"
  "bytes (avail (merge_step s x)) = bytes (avail s)"
  by (simp_all add: merge_step_def Let_def add_front_fields add_front_other remove_fields
      remove_other el_get_footer_def)

lemma merge_unfold:
  "el_merge_block_with_above s lower =
     (if lower = NULL then Some s
      else if head_state s lower = EL_AVAILABLE then
        (if el_block_above s lower = NULL then Some s
         else
           Option.bind
             (if head_state s (el_block_above s lower) = EL_AVAILABLE
              then el_merge_block_with_above (merge_step s lower) lower
              else Some s)
             (\<lambda>s. if el_block_below s lower = NULL then Some s
                  else if head_state s (el_block_below s lower) = EL_AVAILABLE
                  then el_merge_block_with_above s (el_block_below s lower)
                  else Some s))
      else Some s)"
  by (subst el_merge_block_with_above.simps) (simp add: merge_step_def)

lemma avail_not_used [simp]: "EL_AVAILABLE \<noteq> EL_USED" "EL_USED \<noteq> EL_AVAILABLE"
  by (simp_all add: el_consts)

lemma wf_split_list:
  assumes "wf s bs fl ul" and "bs = pre @ x # h # post"
  shows "tiles s (heap_start s) pre x" "blk_end s x \<le> unat (heap_end s)"
    "h = x + (head_size s x + EL_BLOCK_OVERHEAD)" "unat h = blk_end s x"
    "blk_end s h \<le> unat (heap_end s)"
    "tiles s (h + (head_size s h + EL_BLOCK_OVERHEAD)) post (heap_end s)"
    "x \<noteq> h" "x \<notin> set pre" "x \<notin> set post" "h \<notin> set pre" "h \<notin> set post"
    "el_block_above s x = h"
proof -
  note d = wfD [OF assms(1)]
  from d(2) obtain m where p: "tiles s (heap_start s) pre m"
    and t: "tiles s m (x # h # post) (heap_end s)"
    unfolding assms(2) tiles_append by blast
  from t have xm: "x = m" and bx: "blk_end s x \<le> unat (heap_end s)"
    and h: "h = x + (head_size s x + EL_BLOCK_OVERHEAD)"
    and bh: "blk_end s h \<le> unat (heap_end s)"
    and tp: "tiles s (h + (head_size s h + EL_BLOCK_OVERHEAD)) post (heap_end s)"
    by auto
  show "tiles s (heap_start s) pre x" using p xm by simp
  show "blk_end s x \<le> unat (heap_end s)" by fact
  show "h = x + (head_size s x + EL_BLOCK_OVERHEAD)" by fact
  show "unat h = blk_end s x" using unat_above [OF bx] h by simp
  show "blk_end s h \<le> unat (heap_end s)" by fact
  show "tiles s (h + (head_size s h + EL_BLOCK_OVERHEAD)) post (heap_end s)" by fact
  have "distinct bs" using d(2) by (rule tiles_distinct)
  then show "x \<noteq> h" "x \<notin> set pre" "x \<notin> set post" "h \<notin> set pre" "h \<notin> set post"
    unfolding assms(2) by auto
  show "el_block_above s x = h" using d(2) unfolding assms(2) by (rule tiles_above)
qed

lemma merge_size_arith:
  fixes x h zx zh e :: "64 word"
  assumes "unat h = unat x + unat zx + 40" and "unat h + unat zh + 40 \<le> unat e"
  shows "unat (zx + zh + 40) = unat zx + unat zh + 40"
proof -
  have e: "unat e < 2 ^ 64" by (rule unat_64_bound)
  have 1: "unat (zx + zh) = unat zx + unat zh" using assms e by (simp add: unat_plus_nowrap)
  show ?thesis using assms e 1 by (simp add: unat_plus_nowrap)
qed

lemma wf_merge_step_tiles:
  assumes w: "wf s bs fl ul" and bs: "bs = pre @ x # h # post"
    and sx: "head_state s x = EL_AVAILABLE"
  shows "tiles (merge_step s x) (heap_start s) (pre @ x # post) (heap_end s)"
    and "blk_end (merge_step s x) x = blk_end s h"
proof -
  note d = wfD [OF w]
  note l = wf_split_list [OF w bs]
  let ?s = "merge_step s x"
  let ?N = "head_size s x + head_size s h + EL_BLOCK_OVERHEAD"
  let ?F = "x + (HEAD_BYTES + ?N)"
  have hz: "head_size ?s = (head_size s)(x := ?N)"
    and fz: "foot_size ?s = (foot_size s)(?F := ?N)"
    by (simp_all add: merge_step_fields l(12))
  have uN: "unat ?N = unat (head_size s x) + unat (head_size s h) + 40"
    using l(4,5) merge_size_arith [of h x "head_size s x" "head_size s h" "heap_end s"]
    by (simp add: blk_end_eq el_consts)
  have be: "blk_end ?s x = blk_end s h"
    using l(4) uN by (simp add: blk_end_eq hz)
  show "blk_end ?s x = blk_end s h" by fact
  have F: "?F = el_get_footer s h"
    by (simp add: el_get_footer_def l(3) el_consts)
  have uF: "unat ?F = blk_end s h - 8" using unat_footer [OF l(5)] F by simp
  have nx: "x + (?N + EL_BLOCK_OVERHEAD) = h + (head_size s h + EL_BLOCK_OVERHEAD)"
    by (simp add: l(3) el_consts)
  have 1: "tiles ?s (heap_start s) pre x = tiles s (heap_start s) pre x"
  proof (rule tiles_cong)
    fix b assume b: "b \<in> set pre"
    from tiles_mem [OF l(1) b] have bb: "blk_end s b \<le> unat x" by simp
    then have "b \<noteq> x" by (auto simp: blk_end_eq)
    then show "head_size ?s b = head_size s b" by (simp add: hz)
    show "head_state ?s b = head_state s b" by (simp add: merge_step_fields)
    have "unat (el_get_footer s b) = blk_end s b - 8" using unat_footer [OF bb] .
    then have "unat (el_get_footer s b) < unat ?F"
      using bb uF l(4) by (simp add: blk_end_eq)
    then have "el_get_footer s b \<noteq> ?F" by auto
    then show "foot_size ?s (el_get_footer s b) = foot_size s (el_get_footer s b)"
      by (simp add: fz)
  qed
  let ?P = "h + (head_size s h + EL_BLOCK_OVERHEAD)"
  have uP: "unat ?P = blk_end s h" using unat_above [OF l(5)] .
  have 2: "tiles ?s ?P post (heap_end s) = tiles s ?P post (heap_end s)"
  proof (rule tiles_cong)
    fix b assume b: "b \<in> set post"
    from tiles_mem [OF l(6) b] have bb: "blk_end s h \<le> unat b"
      "blk_end s b \<le> unat (heap_end s)" using uP by simp_all
    then have "b \<noteq> x" using l(4) by (auto simp: blk_end_eq)
    then show "head_size ?s b = head_size s b" by (simp add: hz)
    show "head_state ?s b = head_state s b" by (simp add: merge_step_fields)
    have "unat (el_get_footer s b) = blk_end s b - 8" using unat_footer [OF bb(2)] .
    then have "unat ?F < unat (el_get_footer s b)"
      using bb uF by (simp add: blk_end_eq)
    then have "el_get_footer s b \<noteq> ?F" by auto
    then show "foot_size ?s (el_get_footer s b) = foot_size s (el_get_footer s b)"
      by (simp add: fz)
  qed
  have hx: "head_size ?s x = ?N" by (simp add: hz)
  have gx: "el_get_footer ?s x = ?F" by (simp add: el_get_footer_def hx)
  have fx: "foot_size ?s ?F = ?N" by (simp add: fz)
  have nx': "x + (head_size ?s x + EL_BLOCK_OVERHEAD) = ?P" unfolding hx by (rule nx)
  have sx': "head_state ?s x = EL_AVAILABLE" using sx by (simp add: merge_step_fields)
  have tp: "tiles ?s ?P post (heap_end s)" using 2 l(6) by simp
  have bx: "blk_end ?s x \<le> unat (heap_end s)" using be l(5) by simp
  have 3: "tiles ?s x (x # post) (heap_end s)"
    unfolding tiles.simps nx' gx fx using hx sx' tp bx by simp
  show "tiles ?s (heap_start s) (pre @ x # post) (heap_end s)"
    unfolding tiles_append using 1 l(1) 3 by blast
qed

lemma wf_merge_step_lists:
  assumes w: "wf s bs fl ul" and bs: "bs = pre @ x # h # post"
    and sx: "head_state s x = EL_AVAILABLE" and sh: "head_state s h = EL_AVAILABLE"
  shows "lists_ok (merge_step s x) (x # remove1 x (remove1 h fl)) ul"
proof -
  note d = wfD [OF w]
  note l = wf_split_list [OF w bs]
  note ld = lists_okD [OF d(3)]
  have xin: "x \<in> set bs" and hin: "h \<in> set bs" using bs by auto
  have xf: "x \<in> set fl" and hf: "h \<in> set fl" using d(4) xin hin sx sh by auto
  define s1 where "s1 = el_remove_block s AVAIL h"
  define s2 where "s2 = el_remove_block s1 AVAIL x"
  define N where "N = head_size s x + head_size s h + EL_BLOCK_OVERHEAD"
  define s3 where "s3 = s2\<lparr>head_size := (head_size s2)(x := N),
                            foot_size := (foot_size s2)(x + (HEAD_BYTES + N) := N)\<rparr>"
  have ms: "merge_step s x = el_add_block_front s3 AVAIL x"
    by (simp add: merge_step_def Let_def s3_def s2_def s1_def N_def l(12) remove_fields
        el_get_footer_def)
  have 1: "lists_ok s1 (remove1 h fl) ul"
    unfolding s1_def using d(3) hf by (rule lists_ok_remove_avail)
  have "x \<in> set (remove1 h fl)" using xf l(7) by simp
  with 1 have 2: "lists_ok s2 (remove1 x (remove1 h fl)) ul"
    unfolding s2_def by (rule lists_ok_remove_avail)
  have xn: "x \<notin> set (remove1 x (remove1 h fl))" using ld(7) by simp
  have xu: "x \<notin> set ul" using xf ld(9) by auto
  have 3: "lists_ok s3 (remove1 x (remove1 h fl)) ul"
    using 2
  proof (rule lists_ok_store)
    fix a assume "a \<in> set (remove1 x (remove1 h fl)) \<union> set ul"
    then have "a \<noteq> x" using xn xu by auto
    then show "head_size s3 a = head_size s2 a" by (simp add: s3_def)
  qed (simp_all add: s3_def)
  have "x \<notin> sentinels" using wf_block(5) [OF w xin] .
  with 3 xn xu show ?thesis unfolding ms by (intro lists_ok_add_avail)
qed

lemma wf_merge_step:
  assumes w: "wf s bs fl ul" and bs: "bs = pre @ x # h # post"
    and sx: "head_state s x = EL_AVAILABLE" and sh: "head_state s h = EL_AVAILABLE"
  shows "wf (merge_step s x) (pre @ x # post) (x # remove1 x (remove1 h fl)) ul"
proof -
  note d = wfD [OF w]
  note l = wf_split_list [OF w bs]
  note ld = lists_okD [OF d(3)]
  have xin: "x \<in> set bs" and hin: "h \<in> set bs" using bs by auto
  have xf: "x \<in> set fl" and hf: "h \<in> set fl" using d(4) xin hin sx sh by auto
  have a: "arena_ok (merge_step s x)"
    using d(1) by (simp add: arena_ok_def merge_step_fields)
  have t: "tiles (merge_step s x) (heap_start (merge_step s x)) (pre @ x # post)
             (heap_end (merge_step s x))"
    using wf_merge_step_tiles(1) [OF w bs sx] by (simp add: merge_step_fields)
  have f: "set (x # remove1 x (remove1 h fl))
         = {b \<in> set (pre @ x # post). head_state (merge_step s x) b = EL_AVAILABLE}"
    using ld(7) xf hf l(7,10,11) d(4) sx unfolding bs
    by (auto simp: merge_step_fields)
  have u: "set ul = {b \<in> set (pre @ x # post). head_state (merge_step s x) b = EL_USED}"
    using d(5) sh unfolding bs by (auto simp: merge_step_fields)
  show ?thesis
    unfolding wf_def using a t f u wf_merge_step_lists [OF w bs sx sh] by blast
qed

subsection \<open>Calls that change nothing\<close>

lemma quiet_merge: "quiet s x \<Longrightarrow> el_merge_block_with_above s x = Some s"
proof (induction rule: quiet.induct)
  case quiet_null
  show ?case by (subst merge_unfold) simp
next
  case (quiet_state x)
  then show ?case by (subst merge_unfold) simp
next
  case (quiet_top x)
  then show ?case by (subst merge_unfold) simp
next
  case (quiet_below x)
  then show ?case by (subst merge_unfold) simp
qed

lemma quiet_after:
  assumes "head_state s y = EL_AVAILABLE" and "above_done s y"
    and "quiet s (el_block_below s y) \<or> el_block_above s y = NULL"
  shows "quiet s y"
  using assms unfolding above_done_def
  by (auto intro: quiet_top quiet_below)

subsection \<open>Covered span\<close>

lemma cov_ge:
  assumes "blk_end s x \<le> unat (heap_end s)"
  shows "blk_end s x \<le> cov s x"
proof (cases "above_done s x")
  case True
  then show ?thesis by (simp add: cov_def)
next
  case False
  then have "el_block_above s x \<noteq> NULL" by (simp add: above_done_def)
  then have "el_block_above s x = x + (head_size s x + EL_BLOCK_OVERHEAD)"
    by (auto simp: el_block_above_def Let_def split: if_splits)
  then have "unat (el_block_above s x) = blk_end s x" using unat_above [OF assms] by simp
  then show ?thesis using False by (simp add: cov_def blk_end_eq)
qed

lemma wf_mem_split:
  assumes "wf s bs fl ul" and "x \<in> set bs"
  obtains pre post where "bs = pre @ x # post"
  using assms(2) by (auto simp: in_set_conv_decomp)

lemma wf_above_cases:
  assumes w: "wf s bs fl ul" and bs: "bs = pre @ x # post"
  shows "post = [] \<Longrightarrow> el_block_above s x = NULL"
    and "post = h # post' \<Longrightarrow> el_block_above s x = h"
proof -
  note d = wfD [OF w]
  show "el_block_above s x = NULL" if "post = []"
  proof -
    have "tiles s (heap_start s) (pre @ [x]) (heap_end s)" using d(2) bs that by (simp del: tiles.simps)
    then show ?thesis by (rule tiles_above_last)
  qed
  show "el_block_above s x = h" if "post = h # post'"
  proof -
    have "tiles s (heap_start s) (pre @ x # h # post') (heap_end s)"
      using d(2) bs that by (simp del: tiles.simps)
    then show ?thesis by (rule tiles_above)
  qed
qed

lemma wf_below_cases:
  assumes w: "wf s bs fl ul" and bs: "bs = pre @ x # post"
  shows "pre = [] \<Longrightarrow> el_block_below s x = NULL"
    and "pre = pre' @ [y] \<Longrightarrow> el_block_below s x = y"
proof -
  note d = wfD [OF w]
  have 8: "8 \<le> unat (heap_start s)" using d(1) by (simp add: arena_ok_def)
  show "el_block_below s x = NULL" if "pre = []"
  proof -
    have "tiles s (heap_start s) (x # post) (heap_end s)" using d(2) bs that by (simp del: tiles.simps)
    then show ?thesis using 8 by (rule tiles_below_first)
  qed
  show "el_block_below s x = y" if "pre = pre' @ [y]"
  proof -
    have "tiles s (heap_start s) (pre' @ y # x # post) (heap_end s)"
      using d(2) bs that by (simp del: tiles.simps)
    then show ?thesis by (rule tiles_below)
  qed
qed

lemma wf_top_last:
  assumes w: "wf s bs fl ul" and x: "x \<in> set bs" and a: "el_block_above s x = NULL"
  obtains pre where "bs = pre @ [x]"
proof -
  from x obtain pre post where bs: "bs = pre @ x # post"
    by (auto simp: in_set_conv_decomp)
  have "post = []"
  proof (cases post)
    case Nil
    then show ?thesis .
  next
    case (Cons h post')
    then have "el_block_above s x = h" using wf_above_cases(2) [OF w bs] by simp
    moreover have "h \<noteq> NULL" using wf_block(6) [OF w, of h] bs Cons by simp
    ultimately show ?thesis using a by simp
  qed
  then show ?thesis using bs that by simp
qed

lemma cov_le_end:
  assumes w: "wf s bs fl ul" and x: "x \<in> set bs"
  shows "cov s x \<le> unat (heap_end s)"
proof (cases "above_done s x")
  case True
  then show ?thesis using wf_block(2) [OF w x] by (simp add: cov_def)
next
  case False
  from x obtain pre post where bs: "bs = pre @ x # post"
    by (auto simp: in_set_conv_decomp)
  from False have nn: "el_block_above s x \<noteq> NULL" by (simp add: above_done_def)
  then obtain h post' where p: "post = h # post'"
    using wf_above_cases(1) [OF w bs] by (cases post) auto
  then have "el_block_above s x = h" using wf_above_cases(2) [OF w bs] by simp
  moreover have "h \<in> set bs" using bs p by simp
  ultimately show ?thesis using False wf_block(2) [OF w, of h] by (simp add: cov_def)
qed

lemma cov_top:
  assumes w: "wf s bs fl ul" and x: "x \<in> set bs" and a: "el_block_above s x = NULL"
  shows "cov s x = unat (heap_end s)"
proof -
  from w x a obtain pre where bs: "bs = pre @ [x]" by (rule wf_top_last)
  from wfD(2) [OF w] obtain m where "tiles s m [x] (heap_end s)"
    unfolding bs tiles_append by blast
  then have b: "blk_end s x \<le> unat (heap_end s)"
    and e: "x + (head_size s x + EL_BLOCK_OVERHEAD) = heap_end s"
    by auto
  have "blk_end s x = unat (heap_end s)" using unat_above [OF b] e by simp
  then show ?thesis using a by (simp add: cov_def above_done_def)
qed

subsection \<open>Establishing the postcondition\<close>

lemma merge_post_mono: "merge_post s n ul x s' \<Longrightarrow> n \<le> m \<Longrightarrow> merge_post s m ul x s'"
  unfolding merge_post_def by (meson le_trans)

lemma post_top:
  assumes w: "wf s bs fl ul" and x: "x \<in> set bs" and sx: "head_state s x = EL_AVAILABLE"
    and a: "el_block_above s x = NULL"
  shows "merge_post s (length bs) ul x s"
proof -
  have ad: "above_done s x" using a by (simp add: above_done_def)
  have "cov s x \<le> blk_end s x" using ad by (simp add: cov_def)
  then have "\<exists>c \<in> set bs. head_state s c = EL_AVAILABLE \<and> unat c \<le> unat x
               \<and> cov s x \<le> blk_end s c"
    using x sx by auto
  then show ?thesis unfolding merge_post_def using w x a ad by blast
qed

lemma post_quiet:
  assumes w: "wf s bs fl ul" and x: "x \<in> set bs" and sx: "head_state s x = EL_AVAILABLE"
    and ad: "above_done s x" and q: "quiet s (el_block_below s x)"
  shows "merge_post s (length bs) ul x s"
proof -
  have "cov s x \<le> blk_end s x" using ad by (simp add: cov_def)
  then have "\<exists>c \<in> set bs. head_state s c = EL_AVAILABLE \<and> unat c \<le> unat x
               \<and> cov s x \<le> blk_end s c"
    using x sx by auto
  then show ?thesis unfolding merge_post_def using w q ad by blast
qed

lemma post_below:
  assumes w: "wf s bs fl ul" and bs: "bs = pre @ y # x # post"
    and sx: "head_state s x = EL_AVAILABLE" and sy: "head_state s y = EL_AVAILABLE"
    and ad: "above_done s x" and p: "merge_post s n ul y s'"
  shows "merge_post s n ul x s'"
proof -
  note l = wf_split_list [OF w bs]
  have bx: "blk_end s x \<le> unat (heap_end s)" using wf_block(2) [OF w, of x] bs by simp
  have ay: "el_block_above s y = x" by (rule l(12))
  have xn: "x \<noteq> NULL" using wf_block(6) [OF w, of x] bs by simp
  have "\<not> above_done s y" using ay sx xn by (simp add: above_done_def)
  then have cy: "cov s y = blk_end s x" using ay by (simp add: cov_def)
  have cx: "cov s x = blk_end s x" using ad by (simp add: cov_def)
  have yx: "unat y < unat x" using l(4) by (simp add: blk_end_eq)
  from p obtain bs' fl' c where
    w': "wf s' bs' fl' ul" and n: "length bs' \<le> n"
    and dj: "quiet s' (el_block_below s' y) \<or> (y \<in> set bs' \<and> el_block_above s' y = NULL)"
    and c: "c \<in> set bs'" "head_state s' c = EL_AVAILABLE" "unat c \<le> unat y"
      "cov s y \<le> blk_end s' c"
    and st: "head_state s' = head_state s" and hs: "heap_start s' = heap_start s"
    and he: "heap_end s' = heap_end s" and hb: "heap_bytes s' = heap_bytes s"
    and us: "used s' = used s" and byt: "bytes (avail s') = bytes (avail s)"
    and ady: "above_done s' y"
    and fh: "\<forall>a. unat y < unat a \<longrightarrow> head_size s' a = head_size s a"
    and ff: "\<forall>a. unat a + 8 < cov s y \<longrightarrow> foot_size s' a = foot_size s a"
    unfolding merge_post_def by blast
  have hx: "head_size s' x = head_size s x" using fh yx by simp
  have ab: "el_block_above s' x = el_block_above s x"
    by (simp add: el_block_above_def hx he)
  have ad': "above_done s' x" using ad by (simp add: above_done_def ab st)
  have f8: "8 \<le> unat x" using yx l(4) by (simp add: blk_end_eq)
  then have "FOOT_BYTES \<le> x" by (simp add: word_le_nat_alt el_consts)
  then have "unat (x - FOOT_BYTES) = unat x - 8" by (simp add: unat_sub el_consts)
  then have "unat (x - FOOT_BYTES) + 8 < cov s y" using cy f8 by (simp add: blk_end_eq)
  then have "foot_size s' (x - FOOT_BYTES) = foot_size s (x - FOOT_BYTES)" using ff by simp
  then have "el_block_below s' x = el_block_below s x"
    by (simp add: el_block_below_def hs Let_def)
  moreover have "el_block_below s x = y"
    using wf_below_cases(2) [OF w, of "pre @ [y]" x post pre y] bs by simp
  ultimately have bl: "el_block_below s' x = y" by simp
  have "quiet s' y"
    using dj ady sy by (intro quiet_after) (auto simp: st)
  then have q: "quiet s' (el_block_below s' x)" using bl by simp
  have "\<exists>c \<in> set bs'. head_state s' c = EL_AVAILABLE \<and> unat c \<le> unat x
               \<and> cov s x \<le> blk_end s' c"
    using c yx cx cy by (intro bexI [of _ c]) auto
  moreover have "\<forall>a. unat x < unat a \<longrightarrow> head_size s' a = head_size s a"
    using fh yx by auto
  moreover have "\<forall>a. unat a + 8 < cov s x \<longrightarrow> foot_size s' a = foot_size s a"
    using ff cx cy by auto
  ultimately show ?thesis
    unfolding merge_post_def using w' n q st hs he hb us byt ad' by blast
qed

lemma post_step:
  assumes w: "wf s bs fl ul" and bs: "bs = pre @ x # h # post"
    and sx: "head_state s x = EL_AVAILABLE" and sh: "head_state s h = EL_AVAILABLE"
    and p: "merge_post (merge_step s x) n ul x s'"
  shows "merge_post s n ul x s'"
proof -
  note l = wf_split_list [OF w bs]
  let ?s1 = "merge_step s x"
  have hn: "h \<noteq> NULL" using wf_block(6) [OF w, of h] bs by simp
  have "\<not> above_done s x" using l(12) sh hn by (simp add: above_done_def)
  then have cx: "cov s x = blk_end s h" using l(12) by (simp add: cov_def)
  have be: "blk_end ?s1 x = blk_end s h" by (rule wf_merge_step_tiles(2) [OF w bs sx])
  have "blk_end ?s1 x \<le> unat (heap_end ?s1)"
    using be l(5) by (simp add: merge_step_fields)
  then have c1: "cov s x \<le> cov ?s1 x" using cov_ge [of ?s1 x] be cx by simp
  from p obtain bs' fl' c where
    w': "wf s' bs' fl' ul" and n: "length bs' \<le> n"
    and dj: "quiet s' (el_block_below s' x) \<or> (x \<in> set bs' \<and> el_block_above s' x = NULL)"
    and c: "c \<in> set bs'" "head_state s' c = EL_AVAILABLE" "unat c \<le> unat x"
      "cov ?s1 x \<le> blk_end s' c"
    and st: "head_state s' = head_state ?s1" and hs: "heap_start s' = heap_start ?s1"
    and he: "heap_end s' = heap_end ?s1" and hb: "heap_bytes s' = heap_bytes ?s1"
    and us: "used s' = used ?s1" and byt: "bytes (avail s') = bytes (avail ?s1)"
    and ad: "above_done s' x"
    and fh: "\<forall>a. unat x < unat a \<longrightarrow> head_size s' a = head_size ?s1 a"
    and ff: "\<forall>a. unat a + 8 < cov ?s1 x \<longrightarrow> foot_size s' a = foot_size ?s1 a"
    unfolding merge_post_def by blast
  let ?F = "x + (HEAD_BYTES + (head_size s x + head_size s h + EL_BLOCK_OVERHEAD))"
  have F: "?F = el_get_footer s h" by (simp add: el_get_footer_def l(3) el_consts)
  have uF: "unat ?F = blk_end s h - 8" using unat_footer [OF l(5)] F by simp
  have "\<exists>c \<in> set bs'. head_state s' c = EL_AVAILABLE \<and> unat c \<le> unat x
               \<and> cov s x \<le> blk_end s' c"
    using c c1 by (intro bexI [of _ c]) auto
  moreover have "\<forall>a. unat x < unat a \<longrightarrow> head_size s' a = head_size s a"
    using fh by (auto simp: merge_step_fields)
  moreover have "\<forall>a. unat a + 8 < cov s x \<longrightarrow> foot_size s' a = foot_size s a"
  proof (intro allI impI)
    fix a :: addr assume a: "unat a + 8 < cov s x"
    then have "a \<noteq> ?F" using uF cx by auto
    then have "foot_size ?s1 a = foot_size s a" by (simp add: merge_step_fields l(12))
    moreover have "foot_size s' a = foot_size ?s1 a" using ff a c1 by simp
    ultimately show "foot_size s' a = foot_size s a" by simp
  qed
  ultimately show ?thesis
    unfolding merge_post_def using w' n dj st hs he hb us byt ad
    by (simp add: merge_step_fields) blast
qed

lemma post_trans:
  assumes p1: "merge_post s n ul x s2" and p2: "merge_post s2 m ul x s'"
    and mn: "m \<le> n" and cc: "cov s x \<le> cov s2 x"
  shows "merge_post s n ul x s'"
proof -
  from p2 obtain bs' fl' c where
    w': "wf s' bs' fl' ul" and n: "length bs' \<le> m"
    and dj: "quiet s' (el_block_below s' x) \<or> (x \<in> set bs' \<and> el_block_above s' x = NULL)"
    and c: "c \<in> set bs'" "head_state s' c = EL_AVAILABLE" "unat c \<le> unat x"
      "cov s2 x \<le> blk_end s' c"
    and st: "head_state s' = head_state s2" and hs: "heap_start s' = heap_start s2"
    and he: "heap_end s' = heap_end s2" and hb: "heap_bytes s' = heap_bytes s2"
    and us: "used s' = used s2" and byt: "bytes (avail s') = bytes (avail s2)"
    and ad: "above_done s' x"
    and fh: "\<forall>a. unat x < unat a \<longrightarrow> head_size s' a = head_size s2 a"
    and ff: "\<forall>a. unat a + 8 < cov s2 x \<longrightarrow> foot_size s' a = foot_size s2 a"
    unfolding merge_post_def by blast
  from p1 have
    st1: "head_state s2 = head_state s" and hs1: "heap_start s2 = heap_start s"
    and he1: "heap_end s2 = heap_end s" and hb1: "heap_bytes s2 = heap_bytes s"
    and us1: "used s2 = used s" and by1: "bytes (avail s2) = bytes (avail s)"
    and fh1: "\<forall>a. unat x < unat a \<longrightarrow> head_size s2 a = head_size s a"
    and ff1: "\<forall>a. unat a + 8 < cov s x \<longrightarrow> foot_size s2 a = foot_size s a"
    unfolding merge_post_def by blast+
  have "\<exists>c \<in> set bs'. head_state s' c = EL_AVAILABLE \<and> unat c \<le> unat x
               \<and> cov s x \<le> blk_end s' c"
    using c cc by (intro bexI [of _ c]) auto
  moreover have "\<forall>a. unat x < unat a \<longrightarrow> head_size s' a = head_size s a"
    using fh fh1 by auto
  moreover have "\<forall>a. unat a + 8 < cov s x \<longrightarrow> foot_size s' a = foot_size s a"
    using ff ff1 cc by auto
  moreover have "length bs' \<le> n" using n mn by simp
  ultimately show ?thesis
    unfolding merge_post_def using w' dj st hs he hb us byt ad st1 hs1 he1 hb1 us1 by1
    by simp blast
qed

subsection \<open>The recursion of \<^verbatim>\<open>el_merge_block_with_above\<close>\<close>

lemma lex_less:
  fixes m n a b K :: nat
  assumes "m < n" and "a < K"
  shows "m * K + a < n * K + b"
proof -
  have "Suc m * K \<le> n * K" using assms(1) by (intro mult_le_mono1) simp
  then show ?thesis using assms(2) by simp
qed

lemma below_phase:
  assumes w: "wf s bs fl ul" and x: "x \<in> set bs" and sx: "head_state s x = EL_AVAILABLE"
    and ad: "above_done s x"
    and IH: "\<And>y. y \<in> set bs \<Longrightarrow> unat y < unat x \<Longrightarrow> head_state s y = EL_AVAILABLE \<Longrightarrow>
               \<exists>s'. el_merge_block_with_above s y = Some s' \<and> merge_post s (length bs) ul y s'"
  shows "\<exists>s'. (if el_block_below s x = NULL then Some s
               else if head_state s (el_block_below s x) = EL_AVAILABLE
               then el_merge_block_with_above s (el_block_below s x)
               else Some s) = Some s'
             \<and> merge_post s (length bs) ul x s'"
proof -
  from x obtain pre post where bs: "bs = pre @ x # post"
    by (auto simp: in_set_conv_decomp)
  show ?thesis
  proof (cases pre rule: rev_cases)
    case Nil
    then have b: "el_block_below s x = NULL" using wf_below_cases(1) [OF w bs] by simp
    then have "quiet s (el_block_below s x)" by (simp add: quiet_null)
    then have "merge_post s (length bs) ul x s" using w x sx ad by (intro post_quiet)
    then show ?thesis using b by simp
  next
    case (snoc pre' y)
    then have b: "el_block_below s x = y" using wf_below_cases(2) [OF w bs] by simp
    have yb: "y \<in> set bs" using bs snoc by simp
    have yn: "y \<noteq> NULL" using wf_block(6) [OF w yb] .
    have bs': "bs = pre' @ y # x # post" using bs snoc by simp
    have yx: "unat y < unat x" using wf_split_list(4) [OF w bs'] by (simp add: blk_end_eq)
    show ?thesis
    proof (cases "head_state s y = EL_AVAILABLE")
      case True
      from IH [OF yb yx True] obtain s' where
        m: "el_merge_block_with_above s y = Some s'" and p: "merge_post s (length bs) ul y s'"
        by blast
      have "merge_post s (length bs) ul x s'" using w bs' sx True ad p by (rule post_below)
      then show ?thesis using b yn True m by simp
    next
      case False
      then have "quiet s (el_block_below s x)" using b by (simp add: quiet_state)
      then have "merge_post s (length bs) ul x s" using w x sx ad by (intro post_quiet)
      then show ?thesis using b yn False by simp
    qed
  qed
qed

lemma merge_main:
  assumes "wf s bs fl ul" and "x \<in> set bs" and "head_state s x = EL_AVAILABLE"
  shows "\<exists>s'. el_merge_block_with_above s x = Some s' \<and> merge_post s (length bs) ul x s'"
  using assms
proof (induction "length bs * 2 ^ 64 + unat x" arbitrary: s bs fl x rule: less_induct)
  case less
  note w = less.prems(1) and x = less.prems(2) and sx = less.prems(3)
  from x obtain pre post where bs: "bs = pre @ x # post"
    by (auto simp: in_set_conv_decomp)
  have xn: "x \<noteq> NULL" using wf_block(6) [OF w x] .
  have same: "\<exists>s'. el_merge_block_with_above s y = Some s' \<and> merge_post s (length bs) ul y s'"
    if "y \<in> set bs" "unat y < unat x" "head_state s y = EL_AVAILABLE" for y
  proof -
    have "length bs * 2 ^ 64 + unat y < length bs * 2 ^ 64 + unat x" using that(2) by simp
    from less.hyps [OF this w that(1,3)] show ?thesis .
  qed
  show ?case
  proof (cases post)
    case Nil
    then have a: "el_block_above s x = NULL" using wf_above_cases(1) [OF w bs] by simp
    have "merge_post s (length bs) ul x s" using w x sx a by (rule post_top)
    moreover have "el_merge_block_with_above s x = Some s"
      using a by (subst merge_unfold) simp
    ultimately show ?thesis by blast
  next
    case (Cons h post')
    then have a: "el_block_above s x = h" using wf_above_cases(2) [OF w bs] by simp
    have bs': "bs = pre @ x # h # post'" using bs Cons by simp
    have hn: "h \<noteq> NULL" using wf_block(6) [OF w, of h] bs' by simp
    show ?thesis
    proof (cases "head_state s h = EL_AVAILABLE")
      case False
      then have ad: "above_done s x" using a by (simp add: above_done_def)
      from below_phase [OF w x sx ad same] obtain s' where
        c: "(if el_block_below s x = NULL then Some s
               else if head_state s (el_block_below s x) = EL_AVAILABLE
               then el_merge_block_with_above s (el_block_below s x)
               else Some s) = Some s'"
        and p: "merge_post s (length bs) ul x s'"
        by blast
      have "el_merge_block_with_above s x = Some s'"
        using xn sx a hn False c by (subst merge_unfold) simp
      then show ?thesis using p by blast
    next
      case True
      let ?s1 = "merge_step s x"
      let ?bs1 = "pre @ x # post'"
      have w1: "wf ?s1 ?bs1 (x # remove1 x (remove1 h fl)) ul"
        using w bs' sx True by (rule wf_merge_step)
      have l1: "length ?bs1 < length bs" using bs' by simp
      have x1: "x \<in> set ?bs1" by simp
      have sx1: "head_state ?s1 x = EL_AVAILABLE" using sx by (simp add: merge_step_fields)
      have "length ?bs1 * 2 ^ 64 + unat x < length bs * 2 ^ 64 + unat x"
        using l1 by simp
      from less.hyps [OF this w1 x1 sx1] obtain s2 where
        m2: "el_merge_block_with_above ?s1 x = Some s2"
        and p2: "merge_post ?s1 (length ?bs1) ul x s2"
        by blast
      from p2 obtain bs2 fl2 where
        w2: "wf s2 bs2 fl2 ul" and n2: "length bs2 \<le> length ?bs1"
        and dj: "quiet s2 (el_block_below s2 x) \<or> (x \<in> set bs2 \<and> el_block_above s2 x = NULL)"
        and st2: "head_state s2 = head_state ?s1" and he2: "heap_end s2 = heap_end ?s1"
        and ad2: "above_done s2 x"
        unfolding merge_post_def by blast
      have sx2: "head_state s2 x = EL_AVAILABLE" using sx1 st2 by simp
      have unf: "el_merge_block_with_above s x =
          (if el_block_below s2 x = NULL then Some s2
               else if head_state s2 (el_block_below s2 x) = EL_AVAILABLE
               then el_merge_block_with_above s2 (el_block_below s2 x)
               else Some s2)"
        using xn sx a hn True m2 by (subst merge_unfold) simp
      from dj show ?thesis
      proof
        assume q: "quiet s2 (el_block_below s2 x)"
        have "el_merge_block_with_above s x = Some s2"
          unfolding unf using quiet_merge [OF q] by simp
        moreover have "merge_post s (length bs) ul x s2"
        proof (rule merge_post_mono)
          show "merge_post s (length ?bs1) ul x s2" using w bs' sx True p2 by (rule post_step)
          show "length ?bs1 \<le> length bs" using l1 by simp
        qed
        ultimately show ?thesis by blast
      next
        assume t: "x \<in> set bs2 \<and> el_block_above s2 x = NULL"
        have ih2: "\<exists>s'. el_merge_block_with_above s2 y = Some s'
                      \<and> merge_post s2 (length bs2) ul y s'"
          if "y \<in> set bs2" "unat y < unat x" "head_state s2 y = EL_AVAILABLE" for y
        proof -
          have "length bs2 < length bs" using n2 l1 by simp
          then have "length bs2 * 2 ^ 64 + unat y < length bs * 2 ^ 64 + unat x"
            using unat_64_bound [of y] by (rule lex_less)
          from less.hyps [OF this w2 that(1,3)] show ?thesis .
        qed
        from below_phase [OF w2 _ sx2 ad2 ih2] t obtain s' where
          c: "(if el_block_below s2 x = NULL then Some s2
               else if head_state s2 (el_block_below s2 x) = EL_AVAILABLE
               then el_merge_block_with_above s2 (el_block_below s2 x)
               else Some s2) = Some s'"
          and p: "merge_post s2 (length bs2) ul x s'"
          by blast
        have "cov ?s1 x \<le> unat (heap_end ?s1)" using w1 x1 by (rule cov_le_end)
        moreover have "cov s2 x = unat (heap_end s2)" using w2 t by (intro cov_top) auto
        ultimately have cc: "cov ?s1 x \<le> cov s2 x" using he2 by simp
        have "merge_post ?s1 (length ?bs1) ul x s'" using p2 p n2 cc by (rule post_trans)
        with w bs' sx True have "merge_post s (length ?bs1) ul x s'" by (rule post_step)
        moreover have "length ?bs1 \<le> length bs" using l1 by simp
        ultimately have "merge_post s (length bs) ul x s'" by (rule merge_post_mono)
        moreover have "el_merge_block_with_above s x = Some s'" unfolding unf by (rule c)
        ultimately show ?thesis by blast
      qed
    qed
  qed
qed

subsection \<open>Release\<close>

lemma tiles_pres:
  assumes "tiles s a bs e"
    and "\<And>b. b \<in> set bs \<Longrightarrow> head_size s' b = head_size s b"
    and "\<And>b. b \<in> set bs \<Longrightarrow> head_state s' b = EL_AVAILABLE \<or> head_state s' b = EL_USED"
    and "\<And>b. b \<in> set bs \<Longrightarrow> foot_size s' (el_get_footer s b) = foot_size s (el_get_footer s b)"
  shows "tiles s' a bs e"
  using assms
proof (induction bs arbitrary: a)
  case Nil
  then show ?case by simp
next
  case (Cons x bs)
  have t: "tiles s (x + (head_size s x + EL_BLOCK_OVERHEAD)) bs e"
    and x: "x = a" "blk_end s x \<le> unat e" "foot_size s (el_get_footer s x) = head_size s x"
    using Cons.prems(1) by auto
  have "tiles s' (x + (head_size s x + EL_BLOCK_OVERHEAD)) bs e"
    using t Cons.prems(2,3,4) by (intro Cons.IH) auto
  moreover have "head_size s' x = head_size s x"
    "head_state s' x = EL_AVAILABLE \<or> head_state s' x = EL_USED"
    "foot_size s' (el_get_footer s x) = foot_size s (el_get_footer s x)"
    using Cons.prems(2,3,4) by auto
  ultimately show ?case using x by (simp add: el_get_footer_def blk_end_def)
qed

lemma wf_lists_sub:
  assumes "wf s bs fl ul"
  shows "set fl \<subseteq> set bs" "set ul \<subseteq> set bs"
  using wfD(4,5) [OF assms] by auto

lemma above_state_upd:
  "el_block_above (s\<lparr>head_state := f\<rparr>) = el_block_above s"
  by (rule ext) (simp add: el_block_above_def)

lemma cov_free_state:
  assumes "blk_end s b \<le> unat (heap_end s)"
    and "head_size s' = head_size s" and "heap_end s' = heap_end s"
    and "head_state s' = (head_state s)(b := EL_AVAILABLE)"
  shows "cov s' b = cov s b"
proof -
  have ab: "el_block_above s' b = el_block_above s b"
    by (simp add: el_block_above_def assms)
  have "above_done s' b = above_done s b"
  proof (cases "el_block_above s b = NULL")
    case True
    then show ?thesis by (simp add: above_done_def ab)
  next
    case False
    then have "el_block_above s b = b + (head_size s b + EL_BLOCK_OVERHEAD)"
      by (auto simp: el_block_above_def Let_def split: if_splits)
    then have "unat (el_block_above s b) = blk_end s b" using unat_above [OF assms(1)] by simp
    then have "el_block_above s b \<noteq> b" by (auto simp: blk_end_eq)
    then show ?thesis by (simp add: above_done_def ab assms)
  qed
  then show ?thesis by (simp add: cov_def ab blk_end_def assms)
qed

lemma free_unfold:
  "el_free s (b + HEAD_BYTES) = el_merge_block_with_above (free_block s b) b"
  by (simp add: el_free_def free_block_def Let_def)

lemma free_block_fields:
  "head_size (free_block s b) = head_size s"
  "foot_size (free_block s b) = foot_size s"
  "head_state (free_block s b) = (head_state s)(b := EL_AVAILABLE)"
  "heap_start (free_block s b) = heap_start s"
  "heap_end (free_block s b) = heap_end s"
  "heap_bytes (free_block s b) = heap_bytes s"
  "used (free_block s b) = (used s)\<lparr>len := len (used s) - 1,
       bytes := bytes (used s) - (head_size s b + EL_BLOCK_OVERHEAD)\<rparr>"
  "bytes (avail (free_block s b)) = bytes (avail s) + (head_size s b + EL_BLOCK_OVERHEAD)"
  by (simp_all add: free_block_def Let_def add_front_fields remove_fields add_front_other
      remove_other)

lemma free_block_wf:
  assumes w: "wf s bs fl ul" and b: "b \<in> set ul"
  shows "wf (free_block s b) bs (b # fl) (remove1 b ul)"
proof -
  note d = wfD [OF w]
  note ld = lists_okD [OF d(3)]
  have bb: "b \<in> set bs" using b d(5) by auto
  have su: "head_state s b = EL_USED" using b d(5) by auto
  have bf: "b \<notin> set fl" using b ld(9) by auto
  define s1 where "s1 = el_remove_block s USED b"
  define s2 where "s2 = s1\<lparr>head_state := (head_state s1)(b := EL_AVAILABLE)\<rparr>"
  define s3 where "s3 = el_add_block_front s2 AVAIL b"
  have g: "free_block s b = s3"
    by (simp add: free_block_def Let_def s3_def s2_def s1_def)
  have l1: "lists_ok s1 fl (remove1 b ul)"
    unfolding s1_def using d(3) b by (rule lists_ok_remove_used)
  have l2: "lists_ok s2 fl (remove1 b ul)"
    using l1 by (rule lists_ok_store) (simp_all add: s2_def)
  have "b \<notin> set (remove1 b ul)" using ld(8) by simp
  then have l3: "lists_ok s3 (b # fl) (remove1 b ul)"
    unfolding s3_def using l2 bf wf_block(5) [OF w bb] by (intro lists_ok_add_avail)
  have hz: "head_size s3 = head_size s" and fz: "foot_size s3 = foot_size s"
    and st: "head_state s3 = (head_state s)(b := EL_AVAILABLE)"
    and hs: "heap_start s3 = heap_start s" and he: "heap_end s3 = heap_end s"
    and hb: "heap_bytes s3 = heap_bytes s"
    by (simp_all add: s3_def s2_def s1_def add_front_fields remove_fields)
  have t3: "tiles s3 (heap_start s3) bs (heap_end s3)"
    unfolding hs he using d(2)
  proof (rule tiles_pres)
    fix c assume "c \<in> set bs"
    then show "head_state s3 c = EL_AVAILABLE \<or> head_state s3 c = EL_USED"
      using tiles_mem [OF d(2)] by (auto simp: st)
  qed (simp_all add: hz fz)
  have a3: "arena_ok s3" using d(1) by (simp add: arena_ok_def hs he hb)
  have f3: "set (b # fl) = {c \<in> set bs. head_state s3 c = EL_AVAILABLE}"
    using d(4) bb by (auto simp: st)
  have u3: "set (remove1 b ul) = {c \<in> set bs. head_state s3 c = EL_USED}"
    using d(5) ld(8) by (auto simp: st)
  have w3: "wf s3 bs (b # fl) (remove1 b ul)"
    unfolding wf_def using a3 t3 l3 f3 u3 by blast
  show ?thesis using w3 unfolding g .
qed

lemma free_wf:
  assumes w: "wf s bs fl ul" and b: "b \<in> set ul"
  shows "\<exists>s' bs' fl'. el_free s (b + HEAD_BYTES) = Some s'
           \<and> wf s' bs' fl' (remove1 b ul)
           \<and> heap_start s' = heap_start s \<and> heap_end s' = heap_end s
           \<and> heap_bytes s' = heap_bytes s
           \<and> used s' = (used s)\<lparr>len := len (used s) - 1,
                 bytes := bytes (used s) - (head_size s b + EL_BLOCK_OVERHEAD)\<rparr>
           \<and> bytes (avail s') = bytes (avail s) + (head_size s b + EL_BLOCK_OVERHEAD)
           \<and> (\<exists>c \<in> set bs'. head_state s' c = EL_AVAILABLE \<and> unat c \<le> unat b
                  \<and> cov s b \<le> blk_end s' c)"
proof -
  note d = wfD [OF w]
  have bb: "b \<in> set bs" using b d(5) by auto
  define s3 where "s3 = free_block s b"
  have fr: "el_free s (b + HEAD_BYTES) = el_merge_block_with_above s3 b"
    unfolding s3_def by (rule free_unfold)
  have w3: "wf s3 bs (b # fl) (remove1 b ul)"
    unfolding s3_def using w b by (rule free_block_wf)
  have hz: "head_size s3 = head_size s"
    and st: "head_state s3 = (head_state s)(b := EL_AVAILABLE)"
    and hs: "heap_start s3 = heap_start s" and he: "heap_end s3 = heap_end s"
    and hb: "heap_bytes s3 = heap_bytes s"
    by (simp_all add: s3_def free_block_fields)
  have sb: "head_state s3 b = EL_AVAILABLE" by (simp add: st)
  from merge_main [OF w3 bb sb] obtain s' where
    m: "el_merge_block_with_above s3 b = Some s'"
    and p: "merge_post s3 (length bs) (remove1 b ul) b s'"
    by blast
  from p obtain bs' fl' c where
    w': "wf s' bs' fl' (remove1 b ul)"
    and c: "c \<in> set bs'" "head_state s' c = EL_AVAILABLE" "unat c \<le> unat b"
      "cov s3 b \<le> blk_end s' c"
    and e: "heap_start s' = heap_start s3" "heap_end s' = heap_end s3"
      "heap_bytes s' = heap_bytes s3" "used s' = used s3"
      "bytes (avail s') = bytes (avail s3)"
    unfolding merge_post_def by blast
  have cv: "cov s3 b = cov s b"
    using wf_block(2) [OF w bb] hz he st by (rule cov_free_state)
  have us: "used s3 = (used s)\<lparr>len := len (used s) - 1,
                 bytes := bytes (used s) - (head_size s b + EL_BLOCK_OVERHEAD)\<rparr>"
    by (simp add: s3_def free_block_fields)
  have av: "bytes (avail s3) = bytes (avail s) + (head_size s b + EL_BLOCK_OVERHEAD)"
    by (simp add: s3_def free_block_fields)
  have "\<exists>c \<in> set bs'. head_state s' c = EL_AVAILABLE \<and> unat c \<le> unat b
                  \<and> cov s b \<le> blk_end s' c"
    using c cv by (intro bexI [of _ c]) auto
  then show ?thesis
    using fr m w' e hs he hb us av by (intro exI [of _ s'] exI [of _ bs'] exI [of _ fl']) simp
qed

subsection \<open>Growth\<close>

lemma page_arith:
  fixes he :: addr
  assumes np: "1 \<le> npages"
    and fit: "unat he + nat npages * unat EL_PAGE_BYTES \<le> unat EL_CTL_START_ADDRESS"
  defines "N \<equiv> (word_of_int npages :: size_t) * EL_PAGE_BYTES"
  shows "unat N = nat npages * 4096" and "unat (he + N) = unat he + unat N"
    and "unat (N - EL_BLOCK_OVERHEAD) = unat N - 40" and "40 \<le> unat N"
    and "unat he + unat N \<le> unat EL_CTL_START_ADDRESS"
proof -
  define k where "k = nat npages"
  have k: "1 \<le> k" "npages = int k" using np by (simp_all add: k_def)
  have kb: "unat he + k * 4096 \<le> 123145302310912"
    using fit by (simp add: k_def el_consts)
  then have k64: "k < 2 ^ 64" by simp
  have wk: "(word_of_int npages :: size_t) = of_nat k" using k(2) by simp
  have uk: "unat (of_nat k :: size_t) = k" using k64 by (simp add: unat_of_nat)
  have "unat (of_nat k :: size_t) * unat EL_PAGE_BYTES < 2 ^ LENGTH(64)"
    using kb uk by (simp add: el_consts)
  then have "unat ((of_nat k :: size_t) * EL_PAGE_BYTES) = unat (of_nat k :: size_t) * unat EL_PAGE_BYTES"
    by (simp only: unat_mult_lem)
  then have "unat ((of_nat k :: size_t) * EL_PAGE_BYTES) = k * 4096"
    unfolding uk by (simp add: el_consts)
  then show 1: "unat N = nat npages * 4096" unfolding N_def k(2) by simp
  show 2: "unat (he + N) = unat he + unat N"
    using kb 1 by (intro unat_plus_nowrap) (simp add: k_def)
  show 4: "40 \<le> unat N" using 1 k(1) by (simp add: k_def)
  then have "EL_BLOCK_OVERHEAD \<le> N" by (simp add: word_le_nat_alt)
  then show "unat (N - EL_BLOCK_OVERHEAD) = unat N - 40" by (simp add: unat_sub)
  show "unat he + unat N \<le> unat EL_CTL_START_ADDRESS"
    using fit 1 by (simp add: el_consts)
qed

lemma grow_unfold:
  "el_append_pages_to_heap s npages (Mapped (heap_end s)) =
     (if el_block_below (grow_block s npages) (heap_end s) \<noteq> NULL
         \<and> head_state (grow_block s npages) (el_block_below (grow_block s npages) (heap_end s))
              = EL_AVAILABLE
      then map_option (Pair 0)
             (el_merge_block_with_above (grow_block s npages)
                (el_block_below (grow_block s npages) (heap_end s)))
      else Some (0, grow_block s npages))"
  by (simp add: el_append_pages_to_heap_def grow_block_def Let_def el_get_footer_def)


lemma grow_block_wf:
  assumes w: "wf s bs fl ul" and np: "1 \<le> npages"
    and fit: "unat (heap_end s) + nat npages * unat EL_PAGE_BYTES \<le> unat EL_CTL_START_ADDRESS"
  shows "wf (grow_block s npages) (bs @ [heap_end s]) (heap_end s # fl) ul"
    and "heap_end s \<notin> set bs"
proof -
  note d = wfD [OF w]
  note ld = lists_okD [OF d(3)]
  define N where "N = (word_of_int npages :: size_t) * EL_PAGE_BYTES"
  note pa = page_arith [OF np fit, folded N_def]
  define nb where "nb = heap_end s"
  define s1 where "s1 = s\<lparr>heap_end := heap_end s + N, heap_bytes := heap_bytes s + N,
      head_size := (head_size s)(nb := N - EL_BLOCK_OVERHEAD),
      head_state := (head_state s)(nb := EL_AVAILABLE),
      foot_size := (foot_size s)(nb + (HEAD_BYTES + (N - EL_BLOCK_OVERHEAD))
                                   := N - EL_BLOCK_OVERHEAD)\<rparr>"
  define s2 where "s2 = el_add_block_front s1 AVAIL nb"
  have g: "grow_block s npages = s2"
    by (simp add: grow_block_def Let_def s2_def s1_def nb_def N_def)
  have nbs: "nb \<notin> set bs"
  proof
    assume "nb \<in> set bs"
    from wf_block(2) [OF w this] show False by (simp add: nb_def blk_end_eq)
  qed
  have nfl: "nb \<notin> set fl" "nb \<notin> set ul" using nbs wf_lists_sub [OF w] by auto
  have a1: "arena_ok s1"
    using d(1) pa(2,5) by (simp add: arena_ok_def s1_def)
  have "unat nb < unat (heap_end s1)" using pa(2,4) by (simp add: s1_def nb_def)
  then have nsen: "nb \<notin> sentinels" using a1 by (intro below_heap_not_sentinel)
  have l1: "lists_ok s1 fl ul"
    using d(3)
  proof (rule lists_ok_store)
    fix a assume "a \<in> set fl \<union> set ul"
    then have "a \<noteq> nb" using nfl by auto
    then show "head_size s1 a = head_size s a" by (simp add: s1_def)
  qed (simp_all add: s1_def)
  have l2: "lists_ok s2 (nb # fl) ul"
    unfolding s2_def using l1 nfl nsen by (intro lists_ok_add_avail)
  have t0: "tiles s1 (heap_start s) bs (heap_end s)"
    using d(2)
  proof (rule tiles_pres)
    fix b assume b: "b \<in> set bs"
    then have bn: "b \<noteq> nb" using nbs by auto
    then show "head_size s1 b = head_size s b" by (simp add: s1_def)
    show "head_state s1 b = EL_AVAILABLE \<or> head_state s1 b = EL_USED"
      using wf_block(4) [OF w b] bn by (simp add: s1_def)
    have "unat (el_get_footer s b) = blk_end s b - 8"
      using unat_footer [OF wf_block(2) [OF w b]] .
    then have "unat (el_get_footer s b) < unat nb"
      using wf_block(2) [OF w b] by (simp add: nb_def blk_end_eq)
    moreover have "unat nb \<le> unat (nb + (HEAD_BYTES + (N - EL_BLOCK_OVERHEAD)))"
    proof -
      have "unat (HEAD_BYTES + (N - EL_BLOCK_OVERHEAD)) = 32 + (unat N - 40)"
        using pa(3,5) by (intro trans [OF unat_plus_nowrap]) (simp_all add: el_consts)
      moreover have "unat nb + (32 + (unat N - 40)) < 2 ^ 64"
        using pa(4,5) by (simp add: nb_def el_consts)
      ultimately show ?thesis by (simp add: unat_plus_nowrap)
    qed
    ultimately have "el_get_footer s b \<noteq> nb + (HEAD_BYTES + (N - EL_BLOCK_OVERHEAD))"
      by auto
    then show "foot_size s1 (el_get_footer s b) = foot_size s (el_get_footer s b)"
      by (simp add: s1_def)
  qed
  have be: "blk_end s1 nb = unat (heap_end s1)"
    using pa(2,3,4) by (simp add: blk_end_eq s1_def nb_def)
  have t1: "tiles s1 nb [nb] (heap_end s1)"
    using be by (simp add: s1_def el_get_footer_def nb_def)
  have t2: "tiles s2 (heap_start s2) (bs @ [nb]) (heap_end s2)"
  proof -
    have "tiles s1 (heap_start s1) (bs @ [nb]) (heap_end s1)"
      unfolding tiles_append using t0 t1 by (auto simp: s1_def nb_def)
    then have "tiles s1 (heap_start s2) (bs @ [nb]) (heap_end s2)"
      by (simp add: s2_def add_front_fields)
    then show ?thesis
    proof (rule tiles_pres)
      fix b assume "b \<in> set (bs @ [nb])"
      then show "head_state s2 b = EL_AVAILABLE \<or> head_state s2 b = EL_USED"
        using wf_block(4) [OF w, of b] by (auto simp: s2_def add_front_fields s1_def)
    qed (simp_all add: s2_def add_front_fields)
  qed
  have a2: "arena_ok s2" using a1 by (simp add: arena_ok_def s2_def add_front_fields)
  have st: "head_state s2 = (head_state s)(nb := EL_AVAILABLE)"
    by (simp add: s2_def add_front_fields s1_def)
  have f2: "set (nb # fl) = {b \<in> set (bs @ [nb]). head_state s2 b = EL_AVAILABLE}"
    using d(4) nbs by (auto simp: st)
  have u2: "set ul = {b \<in> set (bs @ [nb]). head_state s2 b = EL_USED}"
    using d(5) nbs by (auto simp: st)
  have w2: "wf s2 (bs @ [nb]) (nb # fl) ul"
    unfolding wf_def using a2 t2 l2 f2 u2 by blast
  show "wf (grow_block s npages) (bs @ [heap_end s]) (heap_end s # fl) ul"
    using w2 unfolding g nb_def .
  show "heap_end s \<notin> set bs" using nbs unfolding nb_def .
qed

lemma grow_wf:
  assumes w: "wf s bs fl ul" and np: "1 \<le> npages"
    and fit: "unat (heap_end s) + nat npages * unat EL_PAGE_BYTES \<le> unat EL_CTL_START_ADDRESS"
  shows "\<exists>s' bs' fl'. el_append_pages_to_heap s npages (Mapped (heap_end s)) = Some (0, s')
           \<and> wf s' bs' fl' ul"
proof -
  define nb where "nb = heap_end s"
  define s2 where "s2 = grow_block s npages"
  have ap: "el_append_pages_to_heap s npages (Mapped (heap_end s)) =
      (if el_block_below s2 nb \<noteq> NULL \<and> head_state s2 (el_block_below s2 nb) = EL_AVAILABLE
       then map_option (Pair 0) (el_merge_block_with_above s2 (el_block_below s2 nb))
       else Some (0, s2))"
    unfolding s2_def nb_def by (rule grow_unfold)
  have w2: "wf s2 (bs @ [nb]) (nb # fl) ul"
    unfolding s2_def nb_def using w np fit by (rule grow_block_wf)
  show ?thesis
  proof (cases bs rule: rev_cases)
    case Nil
    have "el_block_below s2 nb = NULL"
      using wf_below_cases(1) [OF w2, of "[]" nb "[]"] Nil by simp
    then show ?thesis using ap w2 by auto
  next
    case (snoc bs0 y)
    have bl: "el_block_below s2 nb = y"
      using wf_below_cases(2) [OF w2, of bs nb "[]" bs0 y] snoc by simp
    have yb: "y \<in> set (bs @ [nb])" using snoc by simp
    show ?thesis
    proof (cases "head_state s2 y = EL_AVAILABLE")
      case True
      from merge_main [OF w2 yb True] obtain s' where
        m: "el_merge_block_with_above s2 y = Some s'"
        and p: "merge_post s2 (length (bs @ [nb])) ul y s'"
        by blast
      from p obtain bs' fl' where "wf s' bs' fl' ul" unfolding merge_post_def by blast
      moreover have "el_append_pages_to_heap s npages (Mapped (heap_end s)) = Some (0, s')"
        using ap bl True m wf_block(6) [OF w2 yb] by simp
      ultimately show ?thesis by blast
    next
      case False
      then have "el_append_pages_to_heap s npages (Mapped (heap_end s)) = Some (0, s2)"
        using ap bl by simp
      then show ?thesis using w2 by blast
    qed
  qed
qed

subsection \<open>Allocation\<close>

lemma find_first_wf:
  assumes w: "wf s bs fl ul"
  shows "(el_find_first_avail s n = Some NULL \<and> (\<forall>b \<in> set fl. \<not> n \<le> head_size s b))
       \<or> (\<exists>b \<in> set fl. el_find_first_avail s n = Some b \<and> n \<le> head_size s b)"
proof -
  note d = wfD [OF w]
  note ld = lists_okD [OF d(3)]
  have "dlist (head_next s) (head_prev s) (beg (avail s)) fl (fin (avail s))"
    using ld(5) by (simp add: list_ok_def)
  moreover have "fin (avail s) \<notin> set fl" using ld by simp
  ultimately have sg: "list_seg (head_next s) (beg (avail s)) fl (fin (avail s))"
    by (rule dlist_seg)
  let ?P = "\<lambda>b. head_state s b = EL_AVAILABLE \<and> n \<le> head_size s b"
  have r: "el_find_first_avail s n = Some (case find ?P fl of None \<Rightarrow> NULL | Some b \<Rightarrow> b)"
    using find_loop_seg [OF sg, of n] by (simp add: el_find_first_avail_def)
  show ?thesis
  proof (cases "find ?P fl")
    case None
    then have "\<forall>b \<in> set fl. \<not> ?P b" by (simp add: find_None_iff)
    then have "\<forall>b \<in> set fl. \<not> n \<le> head_size s b" using d(4) by auto
    then show ?thesis using r None by simp
  next
    case (Some b)
    then have "b \<in> set fl" "?P b" by (auto simp: find_Some_iff)
    then show ?thesis using r Some by auto
  qed
qed

lemma wf_split1:
  assumes "wf s bs fl ul" and "bs = pre @ b # post"
  shows "tiles s (heap_start s) pre b" "blk_end s b \<le> unat (heap_end s)"
    "tiles s (b + (head_size s b + EL_BLOCK_OVERHEAD)) post (heap_end s)"
    "b \<notin> set pre" "b \<notin> set post"
    "\<And>c. c \<in> set pre \<Longrightarrow> blk_end s c \<le> unat b"
    "\<And>c. c \<in> set post \<Longrightarrow> blk_end s b \<le> unat c \<and> blk_end s c \<le> unat (heap_end s)"
proof -
  note d = wfD [OF assms(1)]
  from d(2) obtain m where p: "tiles s (heap_start s) pre m"
    and t: "tiles s m (b # post) (heap_end s)"
    unfolding assms(2) tiles_append by blast
  from t have bm: "b = m" and bb: "blk_end s b \<le> unat (heap_end s)"
    and tp: "tiles s (b + (head_size s b + EL_BLOCK_OVERHEAD)) post (heap_end s)"
    by auto
  show 1: "tiles s (heap_start s) pre b" using p bm by simp
  show "blk_end s b \<le> unat (heap_end s)" by fact
  show "tiles s (b + (head_size s b + EL_BLOCK_OVERHEAD)) post (heap_end s)" by fact
  have "distinct bs" using d(2) by (rule tiles_distinct)
  then show "b \<notin> set pre" "b \<notin> set post" unfolding assms(2) by auto
  show "blk_end s c \<le> unat b" if "c \<in> set pre" for c
    using tiles_mem [OF 1 that] by simp
  show "blk_end s b \<le> unat c \<and> blk_end s c \<le> unat (heap_end s)" if "c \<in> set post" for c
    using tiles_mem [OF tp that] unat_above [OF bb] by simp
qed

lemma malloc_refused_wf:
  assumes w: "wf s bs fl ul" and b: "b \<in> set fl"
  defines "s1 \<equiv> el_remove_block s AVAIL b"
  defines "s5 \<equiv> el_add_block_front (s1\<lparr>head_state := (head_state s1)(b := EL_USED)\<rparr>) USED b"
  shows "wf s5 bs (remove1 b fl) (b # ul)"
proof -
  note d = wfD [OF w]
  note ld = lists_okD [OF d(3)]
  have bb: "b \<in> set bs" using b d(4) by auto
  have bu: "b \<notin> set ul" using b ld(9) by auto
  have br: "b \<notin> set (remove1 b fl)" using ld(7) by simp
  have l1: "lists_ok s1 (remove1 b fl) ul"
    unfolding s1_def using d(3) b by (rule lists_ok_remove_avail)
  have l4: "lists_ok (s1\<lparr>head_state := (head_state s1)(b := EL_USED)\<rparr>) (remove1 b fl) ul"
    using l1 by (rule lists_ok_store) simp_all
  have l5: "lists_ok s5 (remove1 b fl) (b # ul)"
    unfolding s5_def using l4 br bu wf_block(5) [OF w bb] by (intro lists_ok_add_used)
  have hz: "head_size s5 = head_size s" and fz: "foot_size s5 = foot_size s"
    and st: "head_state s5 = (head_state s)(b := EL_USED)"
    and hs: "heap_start s5 = heap_start s" and he: "heap_end s5 = heap_end s"
    and hb: "heap_bytes s5 = heap_bytes s"
    by (simp_all add: s5_def s1_def add_front_fields remove_fields)
  have t5: "tiles s5 (heap_start s5) bs (heap_end s5)"
    unfolding hs he using d(2)
  proof (rule tiles_pres)
    fix c assume "c \<in> set bs"
    then show "head_state s5 c = EL_AVAILABLE \<or> head_state s5 c = EL_USED"
      using tiles_mem [OF d(2)] by (auto simp: st)
  qed (simp_all add: hz fz)
  have a5: "arena_ok s5" using d(1) by (simp add: arena_ok_def hs he hb)
  have f5: "set (remove1 b fl) = {c \<in> set bs. head_state s5 c = EL_AVAILABLE}"
    using d(4) ld(7) by (auto simp: st)
  have u5: "set (b # ul) = {c \<in> set bs. head_state s5 c = EL_USED}"
    using d(5) bb by (auto simp: st)
  show ?thesis unfolding wf_def using a5 t5 l5 f5 u5 by blast
qed

lemma split_arith2:
  fixes n S b e :: "64 word"
  assumes "unat n + 40 \<le> unat S" and "unat b + unat S + 40 \<le> unat e"
  shows "unat (b + (n + 40)) = unat b + unat n + 40"
    and "unat (S - (n + 40)) = unat S - (unat n + 40)"
    and "unat (b + (32 + n)) = unat b + 32 + unat n"
proof -
  have e: "unat e < 2 ^ 64" by (rule unat_64_bound)
  have 1: "unat (n + 40) = unat n + 40" using assms e by (simp add: unat_plus_nowrap)
  show "unat (b + (n + 40)) = unat b + unat n + 40"
    using assms e 1 by (simp add: unat_plus_nowrap)
  have 3: "n + 40 \<le> S" using assms 1 by (simp add: word_le_nat_alt)
  show "unat (S - (n + 40)) = unat S - (unat n + 40)" using 3 1 by (simp add: unat_sub)
  have 4: "unat (32 + n) = 32 + unat n" using assms e by (simp add: unat_plus_nowrap)
  show "unat (b + (32 + n)) = unat b + 32 + unat n"
    using assms e 4 by (simp add: unat_plus_nowrap)
qed

lemma malloc_split_wf:
  assumes w: "wf s bs fl ul" and b: "b \<in> set fl" and bs: "bs = pre @ b # post"
    and fits: "unat n + 40 \<le> unat (head_size s b)"
  defines "nb \<equiv> b + (n + 40)"
  defines "s1 \<equiv> el_remove_block s AVAIL b"
  defines "s2 \<equiv> s1\<lparr>head_size := (head_size s1)
           (b := n, nb := head_size s1 b - (n + 40)),
        head_state := (head_state s1)(nb := EL_AVAILABLE),
        foot_size := (foot_size s1)
           (b + (32 + n) := n,
            b + (32 + head_size s1 b) := head_size s1 b - (n + 40))\<rparr>"
  defines "s3 \<equiv> el_add_block_front s2 AVAIL nb"
  defines "s5 \<equiv> el_add_block_front (s3\<lparr>head_state := (head_state s3)(b := EL_USED)\<rparr>) USED b"
  shows "wf s5 (pre @ b # nb # post) (nb # remove1 b fl) (b # ul)"
    and "blk_end s5 nb = blk_end s b" and "nb \<noteq> NULL"
proof -
  note d = wfD [OF w]
  note ld = lists_okD [OF d(3)]
  note l = wf_split1 [OF w bs]
  let ?S = "head_size s b"
  let ?S' = "?S - (n + 40)"
  have ar: "unat b + unat ?S + 40 \<le> unat (heap_end s)" using l(2) by (simp add: blk_end_eq)
  note a = split_arith [OF fits ar]
  note a2 = split_arith2 [OF fits ar]
  have bb: "b \<in> set bs" using bs by simp
  have sb: "head_state s b = EL_AVAILABLE" using b d(4) by auto
  have bu: "b \<notin> set ul" using b ld(9) by auto
  have br: "b \<notin> set (remove1 b fl)" using ld(7) by simp
  have unb: "unat nb = unat b + unat n + 40" using a2(1) by (simp add: nb_def)
  have nbb: "nb \<noteq> b" using unb by auto
  show nn: "nb \<noteq> NULL" using a(2) by (simp add: nb_def)
  have nbs: "nb \<notin> set bs"
  proof
    assume "nb \<in> set bs"
    then consider "nb \<in> set pre" | "nb = b" | "nb \<in> set post" using bs by auto
    then show False
    proof cases
      case 1
      from l(6) [OF 1] show False using unb by (simp add: blk_end_eq)
    next
      case 2
      then show False using nbb by simp
    next
      case 3
      from l(7) [OF 3] show False using unb fits by (simp add: blk_end_eq)
    qed
  qed
  have nfl: "nb \<notin> set fl" "nb \<notin> set ul" using nbs wf_lists_sub [OF w] by auto
  have "unat nb < unat (heap_end s)" using unb fits ar by linarith
  with d(1) have nsen: "nb \<notin> sentinels" by (rule below_heap_not_sentinel)
  have hz: "head_size s5 = (head_size s)(b := n, nb := ?S')"
    and st: "head_state s5 = (head_state s)(nb := EL_AVAILABLE, b := EL_USED)"
    and fz: "foot_size s5 = (foot_size s)(b + (32 + n) := n, b + (32 + ?S) := ?S')"
    and hs: "heap_start s5 = heap_start s" and he: "heap_end s5 = heap_end s"
    and hb: "heap_bytes s5 = heap_bytes s"
    by (simp_all add: s5_def s3_def s2_def s1_def add_front_fields remove_fields)
  \<comment> \<open>the lists\<close>
  have l1: "lists_ok s1 (remove1 b fl) ul"
    unfolding s1_def using d(3) b by (rule lists_ok_remove_avail)
  have l2: "lists_ok s2 (remove1 b fl) ul"
    using l1
  proof (rule lists_ok_store)
    fix c assume "c \<in> set (remove1 b fl) \<union> set ul"
    then have "c \<noteq> b" "c \<noteq> nb" using br bu nfl by (auto dest: notin_set_remove1)
    then show "head_size s2 c = head_size s1 c" by (simp add: s2_def)
  qed (simp_all add: s2_def)
  have "nb \<notin> set (remove1 b fl)" using nfl(1) by (auto dest: notin_set_remove1)
  then have l3: "lists_ok s3 (nb # remove1 b fl) ul"
    unfolding s3_def using l2 nfl(2) nsen by (intro lists_ok_add_avail)
  have l4: "lists_ok (s3\<lparr>head_state := (head_state s3)(b := EL_USED)\<rparr>)
              (nb # remove1 b fl) ul"
    using l3 by (rule lists_ok_store) simp_all
  have "b \<notin> set (nb # remove1 b fl)" using br nbb by simp
  then have l5: "lists_ok s5 (nb # remove1 b fl) (b # ul)"
    unfolding s5_def using l4 bu wf_block(5) [OF w bb] by (intro lists_ok_add_used)
  \<comment> \<open>the tiling\<close>
  let ?Fb = "b + (32 + n)"
  let ?Fn = "b + (32 + ?S)"
  have Fn: "?Fn = el_get_footer s b" by (simp add: el_get_footer_def el_consts)
  have uFn: "unat ?Fn = blk_end s b - 8" using unat_footer [OF l(2)] Fn by simp
  have uFb: "unat ?Fb = unat b + 32 + unat n" by (rule a2(3))
  have FF: "?Fb \<noteq> ?Fn" using a(4) by simp
  have 1: "tiles s5 (heap_start s) pre b"
    using l(1)
  proof (rule tiles_pres)
    fix c assume c: "c \<in> set pre"
    note cb = l(6) [OF c]
    have ne: "c \<noteq> b" "c \<noteq> nb" using cb unb by (auto simp: blk_end_eq)
    then show "head_size s5 c = head_size s c" by (simp add: hz)
    have "c \<in> set bs" using c bs by simp
    then show "head_state s5 c = EL_AVAILABLE \<or> head_state s5 c = EL_USED"
      using wf_block(4) [OF w, of c] ne by (simp add: st)
    have "unat (el_get_footer s c) = blk_end s c - 8" using cb by (rule unat_footer)
    then have "unat (el_get_footer s c) < unat b" using cb by (simp add: blk_end_eq)
    then have "el_get_footer s c \<noteq> ?Fb" "el_get_footer s c \<noteq> ?Fn"
      using uFb uFn by (auto simp: blk_end_eq)
    then show "foot_size s5 (el_get_footer s c) = foot_size s (el_get_footer s c)"
      by (simp add: fz)
  qed
  let ?P = "b + (?S + EL_BLOCK_OVERHEAD)"
  have 2: "tiles s5 ?P post (heap_end s)"
    using l(3)
  proof (rule tiles_pres)
    fix c assume c: "c \<in> set post"
    note cb = l(7) [OF c]
    have ne: "c \<noteq> b" "c \<noteq> nb" using cb unb fits by (auto simp: blk_end_eq)
    then show "head_size s5 c = head_size s c" by (simp add: hz)
    have "c \<in> set bs" using c bs by simp
    then show "head_state s5 c = EL_AVAILABLE \<or> head_state s5 c = EL_USED"
      using wf_block(4) [OF w, of c] ne by (simp add: st)
    have "blk_end s c \<le> unat (heap_end s)" using cb by simp
    then have "unat (el_get_footer s c) = blk_end s c - 8" by (rule unat_footer)
    then have "unat ?Fn < unat (el_get_footer s c)" "unat ?Fb < unat (el_get_footer s c)"
      using cb uFn uFb fits by (simp_all add: blk_end_eq)
    then have "el_get_footer s c \<noteq> ?Fb" "el_get_footer s c \<noteq> ?Fn" by auto
    then show "foot_size s5 (el_get_footer s c) = foot_size s (el_get_footer s c)"
      by (simp add: fz)
  qed
  have hb5: "head_size s5 b = n" using nbb by (simp add: hz)
  have hn5: "head_size s5 nb = ?S'" by (simp add: hz)
  show ben: "blk_end s5 nb = blk_end s b"
    using unb a2(2) fits by (simp add: blk_end_eq hn5)
  have beb: "blk_end s5 b = unat nb" using unb by (simp add: blk_end_eq hb5)
  have gb: "el_get_footer s5 b = ?Fb" by (simp add: el_get_footer_def hb5 el_consts)
  have gn: "el_get_footer s5 nb = ?Fn"
    unfolding el_get_footer_def hn5 by (simp add: el_consts nb_def)
  have fb: "foot_size s5 ?Fb = n" using FF by (simp add: fz)
  have fn: "foot_size s5 ?Fn = ?S'" by (simp add: fz)
  have nxb: "b + (head_size s5 b + EL_BLOCK_OVERHEAD) = nb" by (simp add: hb5 nb_def el_consts)
  have nxn: "nb + (head_size s5 nb + EL_BLOCK_OVERHEAD) = ?P"
    unfolding hn5 by (simp add: nb_def el_consts)
  have stb: "head_state s5 b = EL_USED" by (simp add: st)
  have stn: "head_state s5 nb = EL_AVAILABLE" using nbb by (simp add: st)
  have 3: "tiles s5 nb (nb # post) (heap_end s)"
    unfolding tiles.simps nxn gn fn using hn5 stn 2 ben l(2) by simp
  have beb': "blk_end s5 b \<le> unat (heap_end s)" using beb unb fits ar by linarith
  have 4: "tiles s5 b (b # nb # post) (heap_end s)"
    unfolding tiles.simps(2) [of s5 b b] nxb gb fb using hb5 stb 3 beb' by simp
  have t5: "tiles s5 (heap_start s5) (pre @ b # nb # post) (heap_end s5)"
    unfolding tiles_append hs he using 1 4 by blast
  have a5: "arena_ok s5" using d(1) by (simp add: arena_ok_def hs he hb)
  have f5: "set (nb # remove1 b fl)
          = {c \<in> set (pre @ b # nb # post). head_state s5 c = EL_AVAILABLE}"
    using d(4) ld(7) l(4,5) nbs nbb unfolding bs by (auto simp: st)
  have u5: "set (b # ul) = {c \<in> set (pre @ b # nb # post). head_state s5 c = EL_USED}"
    using d(5) sb nbs nbb unfolding bs by (auto simp: st)
  show "wf s5 (pre @ b # nb # post) (nb # remove1 b fl) (b # ul)"
    unfolding wf_def using a5 t5 l5 f5 u5 by blast
qed

lemma malloc_wf:
  assumes w: "wf s bs fl ul"
  shows "\<exists>p s'. el_malloc s n = Some (p, s') \<and>
     ((p = NULL \<and> s' = s) \<or>
      (\<exists>b bs' fl'. p = b + HEAD_BYTES \<and> p \<noteq> NULL \<and> b \<in> set fl \<and> b \<notin> set ul
         \<and> wf s' bs' fl' (b # ul)
         \<and> heap_start s' = heap_start s \<and> heap_end s' = heap_end s
         \<and> heap_bytes s' = heap_bytes s
         \<and> used s' = (used s)\<lparr>len := len (used s) + 1,
               bytes := bytes (used s) + (head_size s' b + EL_BLOCK_OVERHEAD)\<rparr>
         \<and> bytes (avail s') + (head_size s' b + EL_BLOCK_OVERHEAD) = bytes (avail s)
         \<and> blk_end s b \<le> cov s' b))"
proof -
  note d = wfD [OF w]
  note ld = lists_okD [OF d(3)]
  from find_first_wf [OF w, of n] show ?thesis
  proof
    assume "el_find_first_avail s n = Some NULL \<and> (\<forall>b \<in> set fl. \<not> n \<le> head_size s b)"
    then have "el_malloc s n = Some (NULL, s)" by (simp add: el_malloc_def)
    then show ?thesis by blast
  next
    assume "\<exists>b \<in> set fl. el_find_first_avail s n = Some b \<and> n \<le> head_size s b"
    then obtain b where b: "b \<in> set fl" and f: "el_find_first_avail s n = Some b"
      and ge: "n \<le> head_size s b"
      by blast
    have bb: "b \<in> set bs" using b wf_lists_sub [OF w] by auto
    have bn: "b \<noteq> NULL" using wf_block(6) [OF w bb] .
    have bu: "b \<notin> set ul" using b ld(9) by auto
    have be: "blk_end s b \<le> unat (heap_end s)" using wf_block(2) [OF w bb] .
    then have ar: "unat b + unat (head_size s b) + 40 \<le> unat (heap_end s)"
      by (simp add: blk_end_eq)
    have nw: "unat n + 40 < 2 ^ 64"
      using ar ge unat_64_bound [of "heap_end s"] by (simp add: word_le_nat_alt)
    have "unat (b + HEAD_BYTES) = unat b + 32"
      using ar unat_64_bound [of "heap_end s"] by (intro trans [OF unat_plus_nowrap]) simp_all
    then have pn: "b + HEAD_BYTES \<noteq> NULL" by auto
    from bb obtain pre post where bs: "bs = pre @ b # post"
      by (auto simp: in_set_conv_decomp)
    define s1 where "s1 = el_remove_block s AVAIL b"
    show ?thesis
    proof (cases "unat n + 40 \<le> unat (head_size s b)")
      case True
      define nb where "nb = b + (n + 40)"
      define s2 where "s2 = s1\<lparr>head_size := (head_size s1)
           (b := n, nb := head_size s1 b - (n + 40)),
        head_state := (head_state s1)(nb := EL_AVAILABLE),
        foot_size := (foot_size s1)
           (b + (32 + n) := n,
            b + (32 + head_size s1 b) := head_size s1 b - (n + 40))\<rparr>"
      define s3 where "s3 = el_add_block_front s2 AVAIL nb"
      define s5 where
        "s5 = el_add_block_front (s3\<lparr>head_state := (head_state s3)(b := EL_USED)\<rparr>) USED b"
      note m = malloc_split_wf [OF w b bs True, folded nb_def s1_def, folded s2_def,
          folded s3_def, folded s5_def]
      have sp: "el_split_block s1 b n = (nb, s2)"
        unfolding nb_def s2_def using True ar
        by (intro split_done) (simp_all add: s1_def remove_fields)
      have r: "el_malloc s n = Some (b + HEAD_BYTES, s5)"
        using m(3) bn by (simp add: el_malloc_def f Let_def sp [unfolded s1_def] s5_def s3_def)
      have nbb: "nb \<noteq> b" using split_arith(3) [OF True ar] by (simp add: nb_def)
      have hb5: "head_size s5 b = n"
        using nbb by (simp add: s5_def s3_def s2_def add_front_fields)
      have us: "used s5 = (used s)\<lparr>len := len (used s) + 1,
               bytes := bytes (used s) + (head_size s5 b + EL_BLOCK_OVERHEAD)\<rparr>"
        unfolding hb5 using nbb
        by (simp add: s5_def s3_def s2_def s1_def add_front_fields add_front_other
            remove_other)
      have av: "bytes (avail s5) + (head_size s5 b + EL_BLOCK_OVERHEAD) = bytes (avail s)"
        unfolding hb5
        by (simp add: s5_def s3_def s2_def s1_def add_front_fields add_front_other
            remove_other remove_fields el_consts)
      have "el_block_above s5 b = nb"
        using wf_above_cases(2) [OF m(1), of pre b "nb # post" nb post] by simp
      moreover have "head_state s5 nb = EL_AVAILABLE"
        using nbb by (simp add: s5_def s3_def s2_def add_front_fields)
      ultimately have "\<not> above_done s5 b" "el_block_above s5 b = nb"
        using m(3) by (simp_all add: above_done_def)
      then have cv: "blk_end s b \<le> cov s5 b" using m(2) by (simp add: cov_def)
      have e: "heap_start s5 = heap_start s" "heap_end s5 = heap_end s"
        "heap_bytes s5 = heap_bytes s"
        by (simp_all add: s5_def s3_def s2_def s1_def add_front_fields remove_fields)
      show ?thesis
        using r pn b bu m(1) e us av cv by blast
    next
      case False
      define s5 where
        "s5 = el_add_block_front (s1\<lparr>head_state := (head_state s1)(b := EL_USED)\<rparr>) USED b"
      have w5: "wf s5 bs (remove1 b fl) (b # ul)"
        unfolding s5_def s1_def using w b by (rule malloc_refused_wf)
      have "head_size s1 b < n + EL_BLOCK_OVERHEAD"
        using False nw by (simp add: split_guard_nat s1_def remove_fields)
      then have sp: "el_split_block s1 b n = (NULL, s1)" by (rule split_refused)
      have r: "el_malloc s n = Some (b + HEAD_BYTES, s5)"
        using bn by (simp add: el_malloc_def f Let_def sp [unfolded s1_def] s5_def s1_def)
      have hb5: "head_size s5 b = head_size s b"
        by (simp add: s5_def s1_def add_front_fields remove_fields)
      have us: "used s5 = (used s)\<lparr>len := len (used s) + 1,
               bytes := bytes (used s) + (head_size s5 b + EL_BLOCK_OVERHEAD)\<rparr>"
        unfolding hb5
        by (simp add: s5_def s1_def add_front_fields add_front_other remove_other
            remove_fields)
      have av: "bytes (avail s5) + (head_size s5 b + EL_BLOCK_OVERHEAD) = bytes (avail s)"
        unfolding hb5
        by (simp add: s5_def s1_def add_front_fields add_front_other remove_other)
      have e: "heap_start s5 = heap_start s" "heap_end s5 = heap_end s"
        "heap_bytes s5 = heap_bytes s"
        by (simp_all add: s5_def s1_def add_front_fields remove_fields)
      have "blk_end s5 b = blk_end s b" by (simp add: blk_end_def hb5)
      then have cv: "blk_end s b \<le> cov s5 b" using cov_ge [of s5 b] be e by simp
      show ?thesis
        using r pn b bu w5 e us av cv by blast
    qed
  qed
qed

subsection \<open>Reachable states are well formed\<close>

lemma init_wf: "wf init_state [EL_HEAP_START_ADDRESS] [EL_HEAP_START_ADDRESS] []"
  by (simp add: wf_def arena_ok_def lists_ok_def list_ok_def sentinels_def blk_end_def
      el_get_footer_def init_state_eq el_consts)

lemma reach_wf:
  "reach s P \<Longrightarrow> \<exists>bs fl ul. wf s bs fl ul \<and> P = (\<lambda>b. b + HEAD_BYTES) ` set ul"
proof (induction rule: reach.induct)
  case (reach_init s)
  then have "s = init_state" using init_ok by simp
  then show ?case using init_wf by (intro exI [of _ "[]"] exI) auto
next
  case (reach_malloc s P n p s')
  then obtain bs fl ul where w: "wf s bs fl ul" and P: "P = (\<lambda>b. b + HEAD_BYTES) ` set ul"
    by blast
  from malloc_wf [OF w, of n] reach_malloc.hyps(2)
  consider "p = NULL" "s' = s"
    | b bs' fl' where "p = b + HEAD_BYTES" "p \<noteq> NULL" "wf s' bs' fl' (b # ul)"
    by auto
  then show ?case
  proof cases
    case 1
    then have "(if p = NULL then P else insert p P) = (\<lambda>b. b + HEAD_BYTES) ` set ul"
      using P by simp
    then show ?thesis using w 1(2) by blast
  next
    case 2
    then have "(if p = NULL then P else insert p P) = (\<lambda>b. b + HEAD_BYTES) ` set (b # ul)"
      using P by simp
    then show ?thesis using 2(3) by blast
  qed
next
  case (reach_free s P p s')
  then obtain bs fl ul where w: "wf s bs fl ul" and P: "P = (\<lambda>b. b + HEAD_BYTES) ` set ul"
    by blast
  from reach_free.hyps(2) P obtain b where b: "b \<in> set ul" "p = b + HEAD_BYTES" by auto
  from free_wf [OF w b(1)] reach_free.hyps(3) b(2) obtain bs' fl' where
    w': "wf s' bs' fl' (remove1 b ul)"
    by auto
  have "distinct ul" using lists_okD(8) [OF wfD(3) [OF w]] .
  then have r: "set (remove1 b ul) = set ul - {b}" by simp
  have "inj (\<lambda>b :: addr. b + HEAD_BYTES)" by (simp add: inj_def)
  then have "(\<lambda>b. b + HEAD_BYTES) ` (set ul - {b})
             = (\<lambda>b. b + HEAD_BYTES) ` set ul - (\<lambda>b. b + HEAD_BYTES) ` {b}"
    by (rule image_set_diff)
  then have "P - {p} = (\<lambda>b. b + HEAD_BYTES) ` set (remove1 b ul)"
    unfolding r P b(2) by simp
  then show ?case using w' by blast
next
  case (reach_grow s P npages r rc s')
  then obtain bs fl ul where w: "wf s bs fl ul" and P: "P = (\<lambda>b. b + HEAD_BYTES) ` set ul"
    by blast
  show ?case
  proof (cases "r = Mapped (heap_end s)")
    case True
    then have "1 \<le> npages"
      "unat (heap_end s) + nat npages * unat EL_PAGE_BYTES \<le> unat EL_CTL_START_ADDRESS"
      using reach_grow.hyps(2) by (simp_all add: mmap_fits_def)
    from grow_wf [OF w this] reach_grow.hyps(3) True obtain bs' fl' where "wf s' bs' fl' ul"
      by auto
    then show ?thesis using P by blast
  next
    case False
    then have "s' = s"
      using reach_grow.hyps(3)
      by (auto simp: el_append_pages_to_heap_def Let_def split: mmap_result.splits if_splits)
    then show ?thesis using w P by blast
  qed
qed

subsection \<open>The aggregates as natural numbers\<close>

lemma tiles_sum:
  "tiles s a bs e \<Longrightarrow> unat a + (\<Sum>b\<leftarrow>bs. unat (head_size s b) + 40) = unat e"
proof (induction bs arbitrary: a)
  case Nil
  then show ?case by simp
next
  case (Cons x bs)
  then have x: "x = a" "blk_end s x \<le> unat e"
    and t: "tiles s (x + (head_size s x + EL_BLOCK_OVERHEAD)) bs e"
    by auto
  from Cons.IH [OF t] unat_above [OF x(2)] x(1) show ?case by (simp add: blk_end_eq)
qed

lemma sum_list_sub:
  fixes f :: "addr \<Rightarrow> nat"
  assumes "distinct xs" and "distinct bs" and "set xs \<subseteq> set bs"
  shows "(\<Sum>b\<leftarrow>xs. f b) \<le> (\<Sum>b\<leftarrow>bs. f b)"
proof -
  have "(\<Sum>b\<leftarrow>xs. f b) = sum f (set xs)" using assms(1) by (rule sum_list_distinct_conv_sum_set)
  moreover have "(\<Sum>b\<leftarrow>bs. f b) = sum f (set bs)"
    using assms(2) by (rule sum_list_distinct_conv_sum_set)
  moreover have "sum f (set xs) \<le> sum f (set bs)" using assms(3) by (intro sum_mono2) auto
  ultimately show ?thesis by simp
qed

lemma unat_sum_list:
  fixes g :: "addr \<Rightarrow> size_t"
  shows "(\<Sum>b\<leftarrow>xs. unat (g b)) < 2 ^ 64 \<Longrightarrow> unat (\<Sum>b\<leftarrow>xs. g b) = (\<Sum>b\<leftarrow>xs. unat (g b))"
proof (induction xs)
  case Nil
  then show ?case by simp
next
  case (Cons x xs)
  then have "unat (\<Sum>b\<leftarrow>xs. g b) = (\<Sum>b\<leftarrow>xs. unat (g b))" by simp
  then show ?case using Cons.prems by (simp add: unat_plus_nowrap)
qed

lemma list_ok_nat:
  assumes w: "wf s bs fl ul" and ok: "list_ok s l xs" and dx: "distinct xs"
    and sub: "set xs \<subseteq> set bs" and e: "fin l \<notin> set xs"
  shows "list_seg (head_next s) (beg l) xs (fin l) \<and> unat (len l) = length xs
       \<and> unat (bytes l) = (\<Sum>b\<leftarrow>xs. unat (head_size s b) + unat EL_BLOCK_OVERHEAD)"
proof -
  note d = wfD [OF w]
  have db: "distinct bs" using d(2) by (rule tiles_distinct)
  have tot: "(\<Sum>b\<leftarrow>bs. unat (head_size s b) + 40) \<le> unat (heap_end s)"
    using tiles_sum [OF d(2)] by simp
  have 1: "(\<Sum>b\<leftarrow>xs. unat (head_size s b) + 40) \<le> unat (heap_end s)"
    using sum_list_sub [OF dx db sub, of "\<lambda>b. unat (head_size s b) + 40"] tot by simp
  have g: "unat (head_size s b + EL_BLOCK_OVERHEAD) = unat (head_size s b) + 40"
    if "b \<in> set xs" for b
  proof -
    have "blk_end s b \<le> unat (heap_end s)" using wf_block(2) [OF w] that sub by auto
    then show ?thesis
      using unat_64_bound [of "heap_end s"]
      by (intro trans [OF unat_plus_nowrap]) (simp_all add: blk_end_eq)
  qed
  then have 2: "(\<Sum>b\<leftarrow>xs. unat (head_size s b + EL_BLOCK_OVERHEAD))
              = (\<Sum>b\<leftarrow>xs. unat (head_size s b) + 40)"
    by (intro arg_cong [where f = sum_list] map_cong) auto
  then have "(\<Sum>b\<leftarrow>xs. unat (head_size s b + EL_BLOCK_OVERHEAD)) < 2 ^ 64"
    using 1 unat_64_bound [of "heap_end s"] by simp
  then have 3: "unat (\<Sum>b\<leftarrow>xs. head_size s b + EL_BLOCK_OVERHEAD)
              = (\<Sum>b\<leftarrow>xs. unat (head_size s b) + 40)"
    using unat_sum_list [where xs = xs and g = "\<lambda>b. head_size s b + EL_BLOCK_OVERHEAD"] 2 by simp
  have "length xs \<le> (\<Sum>b\<leftarrow>xs. unat (head_size s b) + 40)"
    by (induction xs) auto
  then have "length xs < 2 ^ 64" using 1 unat_64_bound [of "heap_end s"] by simp
  then have 4: "unat (of_nat (length xs) :: size_t) = length xs" by (simp add: unat_of_nat)
  have 5: "list_seg (head_next s) (beg l) xs (fin l)"
  proof -
    from ok have "dlist (head_next s) (head_prev s) (beg l) xs (fin l)" by (simp add: list_ok_def)
    then show ?thesis using e by (rule dlist_seg)
  qed
  show ?thesis using ok 3 4 5 by (simp add: list_ok_def)
qed

lemma wf_aggregates:
  assumes w: "wf s bs fl ul"
  shows "list_seg (head_next s) (beg (avail s)) fl (fin (avail s))
       \<and> unat (len (avail s)) = length fl
       \<and> unat (bytes (avail s)) = (\<Sum>b\<leftarrow>fl. unat (head_size s b) + unat EL_BLOCK_OVERHEAD)
       \<and> list_seg (head_next s) (beg (used s)) ul (fin (used s))
       \<and> unat (len (used s)) = length ul
       \<and> unat (bytes (used s)) = (\<Sum>b\<leftarrow>ul. unat (head_size s b) + unat EL_BLOCK_OVERHEAD)"
proof -
  note ld = lists_okD [OF wfD(3) [OF w]]
  have "fin (avail s) \<notin> set fl" "fin (used s) \<notin> set ul" using ld by auto
  then show ?thesis
    using list_ok_nat [OF w ld(5) ld(7) wf_lists_sub(1) [OF w]]
      list_ok_nat [OF w ld(6) ld(8) wf_lists_sub(2) [OF w]]
    by blast
qed

subsection \<open>Every operation returns\<close>

lemma reach_returns:
  assumes r: "reach s P"
  shows "\<exists>p s'. el_malloc s n = Some (p, s')"
    and "p \<in> P \<Longrightarrow> \<exists>s'. el_free s p = Some s'"
    and "mmap_fits s npages m \<Longrightarrow> \<exists>rc s'. el_append_pages_to_heap s npages m = Some (rc, s')"
proof -
  from reach_wf [OF r] obtain bs fl ul
    where w: "wf s bs fl ul" and P: "P = (\<lambda>b. b + HEAD_BYTES) ` set ul"
    by blast
  show "\<exists>p s'. el_malloc s n = Some (p, s')" using malloc_wf [OF w, of n] by blast
  show "\<exists>s'. el_free s p = Some s'" if "p \<in> P"
  proof -
    from that P obtain b where "b \<in> set ul" "p = b + HEAD_BYTES" by auto
    then show ?thesis using free_wf [OF w, of b] by blast
  qed
  show "\<exists>rc s'. el_append_pages_to_heap s npages m = Some (rc, s')" if f: "mmap_fits s npages m"
  proof (cases m)
    case MAP_FAILED
    then show ?thesis by (simp add: el_append_pages_to_heap_def)
  next
    case (Mapped a)
    show ?thesis
    proof (cases "a = heap_end s")
      case True
      with f Mapped have "1 \<le> npages"
        "unat (heap_end s) + nat npages * unat EL_PAGE_BYTES \<le> unat EL_CTL_START_ADDRESS"
        by (simp_all add: mmap_fits_def)
      from grow_wf [OF w this] True Mapped show ?thesis by blast
    next
      case False
      then show ?thesis using Mapped by (simp add: el_append_pages_to_heap_def)
    qed
  qed
qed

subsection \<open>The free list of a reachable state\<close>

text \<open>
  In a reachable state the members of the free list are available blocks inside the arena,
  and so is the block that a successful \<^verbatim>\<open>el_malloc\<close> picks.
\<close>

lemma reach_free_list:
  assumes "reach s P"
  shows "\<exists>xs. list_seg (head_next s) (beg (avail s)) xs (fin (avail s))
            \<and> (\<forall>b \<in> set xs. head_state s b = EL_AVAILABLE
                   \<and> blk_end s b \<le> unat (heap_end s))"
proof -
  from reach_wf [OF assms] obtain bs fl ul where w: "wf s bs fl ul" by blast
  have "list_seg (head_next s) (beg (avail s)) fl (fin (avail s))"
    using wf_aggregates [OF w] by blast
  moreover have "head_state s b = EL_AVAILABLE \<and> blk_end s b \<le> unat (heap_end s)"
    if "b \<in> set fl" for b
    using that wfD(4) [OF w] wf_block(2) [OF w, of b] by auto
  ultimately show ?thesis by blast
qed

lemma reach_malloc_in_arena:
  assumes r: "reach s P" and m: "el_malloc s n = Some (p, s')" and p: "p \<noteq> NULL"
  shows "unat (p - HEAD_BYTES) + unat (head_size s (p - HEAD_BYTES)) + unat EL_BLOCK_OVERHEAD
           \<le> unat (heap_end s)"
proof -
  from reach_wf [OF r] obtain bs fl ul where w: "wf s bs fl ul" by blast
  from malloc_wf [OF w, of n] m p obtain b where b: "p = b + HEAD_BYTES" "b \<in> set fl"
    by auto
  then have "b \<in> set bs" using wf_lists_sub(1) [OF w] by auto
  from wf_block(2) [OF w this] b(1) show ?thesis by (simp add: blk_end_def)
qed

subsection \<open>Merges with no further available neighbour\<close>





subsection \<open>A list whose front member was taken out and put back\<close>




subsection \<open>The two outcomes of a successful allocation\<close>


subsection \<open>A state with the same blocks and the chosen block at the front of the free list\<close>




section \<open>Neighbour lookup (C8)\<close>

text \<open>
  C8. \<^verbatim>\<open>el_block_above\<close> answers the address \<open>block + header.size + EL_BLOCK_OVERHEAD\<close>, or
  \<^verbatim>\<open>NULL\<close> when that address is at or past \<open>heap_end\<close>. \<^verbatim>\<open>el_block_below\<close> reads the footer
  that ends right before the header of \<open>block\<close>, steps back from \<open>block\<close> by that footer's
  size plus \<open>EL_BLOCK_OVERHEAD\<close>, and answers \<^verbatim>\<open>NULL\<close> when the address of that footer is
  at or before \<open>heap_start\<close>.
\<close>

theorem block_above_below_arith:
  "el_block_above s block =
     (if heap_end s \<le> block + head_size s block + EL_BLOCK_OVERHEAD then NULL
      else block + head_size s block + EL_BLOCK_OVERHEAD)
   \<and> el_block_below s block =
     (if block - FOOT_BYTES \<le> heap_start s then NULL
      else block - (foot_size s (block - FOOT_BYTES) + EL_BLOCK_OVERHEAD))"
  by (simp add: el_block_above_def el_block_below_def Let_def add.assoc)

section \<open>Splitting (C3)\<close>

text \<open>
  C3, as stated, fails when \<open>N + EL_BLOCK_OVERHEAD\<close> exceeds the range of \<^verbatim>\<open>size_t\<close>: the
  guard of \<^verbatim>\<open>el_split_block\<close> compares with the wrapped sum. For the block of the initial
  state (size 4056) and the request \<open>2^64 - 1\<close> the size is smaller than request plus
  overhead, yet the block is resized and a non-\<^verbatim>\<open>NULL\<close> address is returned.
\<close>

theorem split_wraps_counterexample:
  "unat (head_size init_state EL_HEAP_START_ADDRESS)
     < unat (0xFFFFFFFFFFFFFFFF :: size_t) + unat EL_BLOCK_OVERHEAD
   \<and> fst (el_split_block init_state EL_HEAP_START_ADDRESS 0xFFFFFFFFFFFFFFFF)
       = EL_HEAP_START_ADDRESS + 39
   \<and> head_size (snd (el_split_block init_state EL_HEAP_START_ADDRESS 0xFFFFFFFFFFFFFFFF))
        EL_HEAP_START_ADDRESS = 0xFFFFFFFFFFFFFFFF"
  by (simp add: init_state_eq el_split_block_def el_get_footer_def el_block_above_def
      el_consts Let_def)

text \<open>
  C3, amended. For a block of size \<open>S\<close> inside the arena and a request \<open>N\<close> such that
  \<open>N + EL_BLOCK_OVERHEAD\<close> does not exceed the range of \<^verbatim>\<open>size_t\<close>: if
  \<open>S \<ge> N + EL_BLOCK_OVERHEAD\<close>, \<^verbatim>\<open>el_split_block\<close> returns the block right above the
  shrunk one, the lower block has size \<open>N\<close>, the two sizes sum to \<open>S - EL_BLOCK_OVERHEAD\<close>,
  each footer mirrors its header, the upper block is marked available, and no list or
  link is touched; if \<open>S < N + EL_BLOCK_OVERHEAD\<close>, nothing changes and \<^verbatim>\<open>NULL\<close> is returned.
\<close>

theorem split_block_correct:
  assumes no_wrap: "unat N + unat EL_BLOCK_OVERHEAD < 2 ^ 64"
    and arena: "unat block + unat (head_size s block) + unat EL_BLOCK_OVERHEAD \<le> unat (heap_end s)"
  shows "(unat N + unat EL_BLOCK_OVERHEAD \<le> unat (head_size s block) \<longrightarrow>
           (case el_split_block s block N of (block_NEW, s') \<Rightarrow>
              block_NEW \<noteq> NULL
            \<and> block_NEW = el_block_above s' block
            \<and> head_size s' block = N
            \<and> unat (head_size s' block) + unat (head_size s' block_NEW)
                 = unat (head_size s block) - unat EL_BLOCK_OVERHEAD
            \<and> foot_size s' (el_get_footer s' block) = head_size s' block
            \<and> foot_size s' (el_get_footer s' block_NEW) = head_size s' block_NEW
            \<and> el_get_footer s' block_NEW = el_get_footer s block
            \<and> head_state s' block_NEW = EL_AVAILABLE
            \<and> head_next s' = head_next s \<and> head_prev s' = head_prev s
            \<and> avail s' = avail s \<and> used s' = used s))
       \<and> (unat (head_size s block) < unat N + unat EL_BLOCK_OVERHEAD \<longrightarrow>
            el_split_block s block N = (NULL, s))"
proof (intro conjI impI)
  assume "unat (head_size s block) < unat N + unat EL_BLOCK_OVERHEAD"
  then have "head_size s block < N + EL_BLOCK_OVERHEAD"
    using no_wrap by (simp add: split_guard_nat)
  then show "el_split_block s block N = (NULL, s)" by (rule split_refused)
next
  assume "unat N + unat EL_BLOCK_OVERHEAD \<le> unat (head_size s block)"
  then have fits: "unat N + 40 \<le> unat (head_size s block)" by simp
  have ar: "unat block + unat (head_size s block) + 40 \<le> unat (heap_end s)"
    using arena by simp
  note a = split_arith [OF fits ar]
  show "case el_split_block s block N of (block_NEW, s') \<Rightarrow>
              block_NEW \<noteq> NULL
            \<and> block_NEW = el_block_above s' block
            \<and> head_size s' block = N
            \<and> unat (head_size s' block) + unat (head_size s' block_NEW)
                 = unat (head_size s block) - unat EL_BLOCK_OVERHEAD
            \<and> foot_size s' (el_get_footer s' block) = head_size s' block
            \<and> foot_size s' (el_get_footer s' block_NEW) = head_size s' block_NEW
            \<and> el_get_footer s' block_NEW = el_get_footer s block
            \<and> head_state s' block_NEW = EL_AVAILABLE
            \<and> head_next s' = head_next s \<and> head_prev s' = head_prev s
            \<and> avail s' = avail s \<and> used s' = used s"
    using a
    by (simp add: split_done [OF fits ar] el_block_above_def el_get_footer_def el_consts)
qed

theorem split_block_correct_witness:
  "unat (100 :: size_t) + unat EL_BLOCK_OVERHEAD < 2 ^ 64
   \<and> unat EL_HEAP_START_ADDRESS + unat (head_size init_state EL_HEAP_START_ADDRESS)
        + unat EL_BLOCK_OVERHEAD \<le> unat (heap_end init_state)
   \<and> unat (100 :: size_t) + unat EL_BLOCK_OVERHEAD
        \<le> unat (head_size init_state EL_HEAP_START_ADDRESS)
   \<and> fst (el_split_block init_state EL_HEAP_START_ADDRESS 100) = EL_HEAP_START_ADDRESS + 140
   \<and> head_size (snd (el_split_block init_state EL_HEAP_START_ADDRESS 100))
        (EL_HEAP_START_ADDRESS + 140) = 3916
   \<and> unat (head_size init_state EL_HEAP_START_ADDRESS) < unat (4050 :: size_t) + unat EL_BLOCK_OVERHEAD
   \<and> el_split_block init_state EL_HEAP_START_ADDRESS 4050 = (NULL, init_state)"
proof -
  have h1: "unat (100 :: size_t) + unat EL_BLOCK_OVERHEAD < 2 ^ 64"
    and h2: "unat (4050 :: size_t) + unat EL_BLOCK_OVERHEAD < 2 ^ 64"
    and ar: "unat EL_HEAP_START_ADDRESS + unat (head_size init_state EL_HEAP_START_ADDRESS)
        + unat EL_BLOCK_OVERHEAD \<le> unat (heap_end init_state)"
    and f1: "unat (100 :: size_t) + unat EL_BLOCK_OVERHEAD
        \<le> unat (head_size init_state EL_HEAP_START_ADDRESS)"
    and f2: "unat (head_size init_state EL_HEAP_START_ADDRESS)
        < unat (4050 :: size_t) + unat EL_BLOCK_OVERHEAD"
    by (simp_all add: init_state_eq el_consts)
  have "el_split_block init_state EL_HEAP_START_ADDRESS 4050 = (NULL, init_state)"
    using split_block_correct [OF h2 ar] f2 by blast
  moreover have "case el_split_block init_state EL_HEAP_START_ADDRESS 100 of (block_NEW, s') \<Rightarrow>
       block_NEW = el_block_above s' EL_HEAP_START_ADDRESS
       \<and> head_size s' EL_HEAP_START_ADDRESS = 100
       \<and> unat (head_size s' EL_HEAP_START_ADDRESS) + unat (head_size s' block_NEW)
                 = unat (head_size init_state EL_HEAP_START_ADDRESS) - unat EL_BLOCK_OVERHEAD"
    using split_block_correct [OF h1 ar] f1 by (auto split: prod.splits)
  ultimately show ?thesis
    using h1 ar f1 f2
    by (simp add: init_state_eq el_split_block_def el_get_footer_def el_block_above_def
      el_consts Let_def)
qed


section \<open>First-fit search (C6)\<close>

text \<open>
  C6. When \<open>xs\<close> are the members of the free list in link order from the begin sentinel to
  the end sentinel, all of them in state available, \<^verbatim>\<open>el_find_first_avail\<close> returns the first
  member of \<open>xs\<close> (front of the list first) whose size is at least the request, and \<^verbatim>\<open>NULL\<close>
  when no member qualifies.
\<close>

theorem find_first_avail_first_fit:
  assumes "list_seg (head_next s) (beg (avail s)) xs (fin (avail s))"
    and "\<forall>b \<in> set xs. head_state s b = EL_AVAILABLE"
  shows "el_find_first_avail s n =
           Some (case find (\<lambda>b. n \<le> head_size s b) xs of None \<Rightarrow> NULL | Some b \<Rightarrow> b)"
proof -
  have "find (\<lambda>b. head_state s b = EL_AVAILABLE \<and> n \<le> head_size s b) xs
        = find (\<lambda>b. n \<le> head_size s b) xs"
    using assms(2) by (induction xs) auto
  then show ?thesis
    using find_loop_seg [OF assms(1), of n] by (simp add: el_find_first_avail_def)
qed

lemma init_state_seg:
  "list_seg (head_next init_state) (beg (avail init_state)) [EL_HEAP_START_ADDRESS]
     (fin (avail init_state))"
  by (simp add: init_state_eq el_consts)

theorem find_first_avail_first_fit_witness:
  "list_seg (head_next init_state) (beg (avail init_state)) [EL_HEAP_START_ADDRESS]
     (fin (avail init_state))
   \<and> head_state init_state EL_HEAP_START_ADDRESS = EL_AVAILABLE
   \<and> el_find_first_avail init_state 100 = Some EL_HEAP_START_ADDRESS
   \<and> el_find_first_avail init_state 5000 = Some NULL"
proof -
  have h: "\<forall>b \<in> set [EL_HEAP_START_ADDRESS]. head_state init_state b = EL_AVAILABLE"
    by (simp add: init_state_eq el_consts)
  show ?thesis
    using h init_state_seg
      find_first_avail_first_fit [OF init_state_seg h, of 100]
      find_first_avail_first_fit [OF init_state_seg h, of 5000]
    by (simp add: init_state_eq el_consts)
qed

section \<open>Exhaustion (C7)\<close>

text \<open>
  C7. When no member of the free list is an available block of at least the requested size,
  \<^verbatim>\<open>el_malloc\<close> returns \<^verbatim>\<open>NULL\<close> and the whole allocator state (arena bounds, both lists, every
  header and footer) is the state before the call.
\<close>

theorem malloc_exhausted_unchanged:
  assumes "list_seg (head_next s) (beg (avail s)) xs (fin (avail s))"
    and "\<forall>b \<in> set xs. \<not> (head_state s b = EL_AVAILABLE \<and> n \<le> head_size s b)"
  shows "el_malloc s n = Some (NULL, s)"
proof -
  have "find (\<lambda>b. head_state s b = EL_AVAILABLE \<and> n \<le> head_size s b) xs = None"
    using assms(2) by (simp add: find_None_iff)
  then have "el_find_first_avail s n = Some NULL"
    using find_loop_seg [OF assms(1), of n] by (simp add: el_find_first_avail_def)
  then show ?thesis by (simp add: el_malloc_def)
qed

theorem malloc_exhausted_unchanged_witness:
  "list_seg (head_next init_state) (beg (avail init_state)) [EL_HEAP_START_ADDRESS]
     (fin (avail init_state))
   \<and> \<not> (head_state init_state EL_HEAP_START_ADDRESS = EL_AVAILABLE
          \<and> 5000 \<le> head_size init_state EL_HEAP_START_ADDRESS)
   \<and> el_malloc init_state 5000 = Some (NULL, init_state)"
proof -
  have h: "\<forall>b \<in> set [EL_HEAP_START_ADDRESS].
         \<not> (head_state init_state b = EL_AVAILABLE \<and> 5000 \<le> head_size init_state b)"
    by (simp add: init_state_eq el_consts)
  show ?thesis
    using h init_state_seg malloc_exhausted_unchanged [OF init_state_seg h] by simp
qed


section \<open>Size of an allocated block (C10)\<close>

lemma malloc_cases:
  assumes "el_malloc s n = Some (p, s')" and "p \<noteq> NULL"
  obtains block where "el_find_first_avail s n = Some block" and "block \<noteq> NULL"
    and "p = block + HEAD_BYTES"
    and "s' = (let s1 = el_remove_block s AVAIL block;
                  (new_block, s2) = el_split_block s1 block n;
                  s3 = (if new_block \<noteq> NULL then el_add_block_front s2 AVAIL new_block else s2);
                  s4 = s3\<lparr>head_state := (head_state s3)(block := EL_USED)\<rparr>
              in el_add_block_front s4 USED block)"
  using assms
  by (auto simp: el_malloc_def Let_def split: option.splits if_splits prod.splits)

text \<open>
  C10. After a successful \<^verbatim>\<open>el_malloc(n)\<close> whose block lies inside the arena, the block at
  the returned pointer minus the header size is in state used, is the first member of the
  used list, and has a size of at least \<open>n\<close> and less than \<open>n + EL_BLOCK_OVERHEAD\<close>: exactly
  \<open>n\<close> when the found block was large enough to split, and the found block's own size when
  the split was refused.
\<close>

theorem malloc_block_size:
  assumes m: "el_malloc s n = Some (p, s')" and ok: "p \<noteq> NULL"
    and arena: "unat (p - HEAD_BYTES) + unat (head_size s (p - HEAD_BYTES))
                  + unat EL_BLOCK_OVERHEAD \<le> unat (heap_end s)"
  shows "head_state s' (p - HEAD_BYTES) = EL_USED
       \<and> head_next s' (beg (used s')) = p - HEAD_BYTES
       \<and> unat n \<le> unat (head_size s' (p - HEAD_BYTES))
       \<and> unat (head_size s' (p - HEAD_BYTES)) < unat n + unat EL_BLOCK_OVERHEAD
       \<and> (unat n + unat EL_BLOCK_OVERHEAD \<le> unat (head_size s (p - HEAD_BYTES)) \<longrightarrow>
            head_size s' (p - HEAD_BYTES) = n)
       \<and> (unat (head_size s (p - HEAD_BYTES)) < unat n + unat EL_BLOCK_OVERHEAD \<longrightarrow>
            head_size s' (p - HEAD_BYTES) = head_size s (p - HEAD_BYTES))"
proof -
  from m ok obtain block where
    f: "el_find_first_avail s n = Some block" and nz: "block \<noteq> NULL"
    and p: "p = block + HEAD_BYTES"
    and s': "s' = (let s1 = el_remove_block s AVAIL block;
                  (new_block, s2) = el_split_block s1 block n;
                  s3 = (if new_block \<noteq> NULL then el_add_block_front s2 AVAIL new_block else s2);
                  s4 = s3\<lparr>head_state := (head_state s3)(block := EL_USED)\<rparr>
              in el_add_block_front s4 USED block)"
    by (rule malloc_cases)
  have b: "p - HEAD_BYTES = block" using p by simp
  let ?S = "head_size s block"
  have ge: "n \<le> ?S"
    using find_loop_found [of s "beg (avail s)" n block] f nz
    by (simp add: el_find_first_avail_def)
  have ar: "unat block + unat ?S + 40 \<le> unat (heap_end s)"
    using arena b by simp
  have nw: "unat n + 40 < 2 ^ 64"
    using ar ge unat_64_bound [of "heap_end s"] by (simp add: word_le_nat_alt)
  show ?thesis
  proof (cases "unat n + 40 \<le> unat ?S")
    case True
    let ?s1 = "el_remove_block s AVAIL block"
    have sp: "el_split_block ?s1 block n =
     (block + (n + 40),
      ?s1\<lparr>head_size := (head_size ?s1)
           (block := n, block + (n + 40) := head_size ?s1 block - (n + 40)),
        head_state := (head_state ?s1)(block + (n + 40) := EL_AVAILABLE),
        foot_size := (foot_size ?s1)
           (block + (32 + n) := n,
            block + (32 + head_size ?s1 block) := head_size ?s1 block - (n + 40))\<rparr>)"
      using True ar by (intro split_done) (simp_all add: remove_fields)
    note a = split_arith [OF True ar]
    show ?thesis
      using True a(2,3) ge
      by (simp add: b s' sp Let_def add_front_fields remove_fields add_front_other
          word_le_nat_alt)
  next
    case False
    then have "?S < n + EL_BLOCK_OVERHEAD" using nw by (simp add: split_guard_nat)
    then have sp: "el_split_block (el_remove_block s AVAIL block) block n
                     = (NULL, el_remove_block s AVAIL block)"
      by (intro split_refused) (simp add: remove_fields)
    show ?thesis
      using False ge
      by (simp add: b s' sp Let_def add_front_fields remove_fields add_front_other
          word_le_nat_alt)
  qed
qed

lemma malloc_100_init:
  "map_option fst (el_malloc init_state 100) = Some (EL_HEAP_START_ADDRESS + 32)"
  by (simp add: init_state_eq eval_defs cong: let_weak_cong)

theorem malloc_block_size_witness:
  "(\<exists>s'. el_malloc init_state 100 = Some (EL_HEAP_START_ADDRESS + 32, s')
     \<and> EL_HEAP_START_ADDRESS + 32 \<noteq> NULL
     \<and> unat (EL_HEAP_START_ADDRESS + 32 - HEAD_BYTES)
          + unat (head_size init_state (EL_HEAP_START_ADDRESS + 32 - HEAD_BYTES))
          + unat EL_BLOCK_OVERHEAD \<le> unat (heap_end init_state)
     \<and> head_state s' EL_HEAP_START_ADDRESS = EL_USED
     \<and> head_size s' EL_HEAP_START_ADDRESS = 100)"
proof -
  obtain s' where m: "el_malloc init_state 100 = Some (EL_HEAP_START_ADDRESS + 32, s')"
    using malloc_100_init by (cases "el_malloc init_state 100") auto
  have ok: "EL_HEAP_START_ADDRESS + 32 \<noteq> NULL" by (simp add: el_consts)
  have ar: "unat (EL_HEAP_START_ADDRESS + 32 - HEAD_BYTES)
          + unat (head_size init_state (EL_HEAP_START_ADDRESS + 32 - HEAD_BYTES))
          + unat EL_BLOCK_OVERHEAD \<le> unat (heap_end init_state)"
    by (simp add: init_state_eq el_consts)
  have "unat (100 :: size_t) + unat EL_BLOCK_OVERHEAD
          \<le> unat (head_size init_state (EL_HEAP_START_ADDRESS + 32 - HEAD_BYTES))"
    by (simp add: init_state_eq el_consts)
  with malloc_block_size [OF m ok ar]
  have "head_state s' (EL_HEAP_START_ADDRESS + 32 - HEAD_BYTES) = EL_USED
      \<and> head_size s' (EL_HEAP_START_ADDRESS + 32 - HEAD_BYTES) = 100"
    by blast
  then have "head_state s' EL_HEAP_START_ADDRESS = EL_USED
      \<and> head_size s' EL_HEAP_START_ADDRESS = 100"
    by (simp add: el_consts)
  with m ok ar show ?thesis by blast
qed


section \<open>Releasing the topmost block (C1, C2)\<close>

text \<open>
  \<^verbatim>\<open>el_merge_block_with_above\<close> returns as soon as \<^verbatim>\<open>el_block_above\<close> answers \<^verbatim>\<open>NULL\<close>, before
  it looks at the block below. Releasing the topmost block therefore never merges it with
  an available block below it.
\<close>

lemma free_top_prefix_eval:
  "map_option (\<lambda>(p2, s3). (p2, el_block_below s3 (p2 - HEAD_BYTES),
        map (head_state s3) [el_block_below s3 (p2 - HEAD_BYTES), p2 - HEAD_BYTES],
        el_block_above s3 (p2 - HEAD_BYTES), len (avail s3), len (used s3)))
     free_top_prefix
   = Some (EL_HEAP_START_ADDRESS + 172, EL_HEAP_START_ADDRESS,
        [EL_AVAILABLE, EL_USED], NULL, 1, 1)"
  by (simp add: free_top_prefix_def init_state_eq eval_defs cong: let_weak_cong)

text \<open>
  C1 at the run \<^verbatim>\<open>el_init(); p1 = el_malloc(100); p2 = el_malloc(3916); el_free(p1);
  el_free(p2)\<close>: the heap walk of the final state visits two blocks, at the heap start and
  140 bytes above it, and both are available.
\<close>

theorem free_top_leaves_adjacent_free:
  "Option.bind free_top_run
     (\<lambda>s. map_option (\<lambda>bs. (bs, map (head_state s) bs)) (heap_walk s (heap_start s)))
   = Some ([EL_HEAP_START_ADDRESS, EL_HEAP_START_ADDRESS + 140],
           [EL_AVAILABLE, EL_AVAILABLE])"
  by (simp add: free_top_run_def free_top_prefix_def init_state_eq eval_defs
      cong: let_weak_cong)

text \<open>
  C2 at the last release of that run: before \<^verbatim>\<open>el_free(p2)\<close> the block below the released
  block is available; after it the released block and the block below are both available,
  still two blocks (the block above the lower one is the released one), and the free list
  has two members.
\<close>

theorem free_top_not_coalesced:
  "Option.bind free_top_prefix
     (\<lambda>(p2, s3). map_option
        (\<lambda>s4. (p2 - HEAD_BYTES,
               head_state s3 (el_block_below s3 (p2 - HEAD_BYTES)),
               map (head_state s4) [el_block_below s4 (p2 - HEAD_BYTES), p2 - HEAD_BYTES],
               el_block_above s4 (el_block_below s4 (p2 - HEAD_BYTES)),
               len (avail s4)))
        (el_free s3 p2))
   = Some (EL_HEAP_START_ADDRESS + 140, EL_AVAILABLE, [EL_AVAILABLE, EL_AVAILABLE],
           EL_HEAP_START_ADDRESS + 140, 2)"
  by (simp add: free_top_prefix_def init_state_eq eval_defs cong: let_weak_cong)

section \<open>The list aggregates (C4)\<close>

text \<open>
  C4: in every state that the public operations produce (\<^verbatim>\<open>el_init\<close>, then any calls of
  \<^verbatim>\<open>el_malloc\<close>, \<^verbatim>\<open>el_free\<close> on outstanding pointers and \<^verbatim>\<open>el_append_pages_to_heap\<close>), for the
  free list and for the used list, the \<^verbatim>\<open>length\<close> field is the number of members between the
  sentinels and the \<^verbatim>\<open>bytes\<close> field is the sum of \<^verbatim>\<open>size + EL_BLOCK_OVERHEAD\<close> over them. Both
  are stated of the numbers the fields hold, so neither count wraps around. That each
  operation does return in such a state is \<open>reach_returns\<close>.
\<close>

theorem list_aggregates_invariant:
  assumes "reach s P"
  shows "\<exists>fl ul.
           list_seg (head_next s) (beg (avail s)) fl (fin (avail s))
         \<and> unat (len (avail s)) = length fl
         \<and> unat (bytes (avail s)) = (\<Sum>b\<leftarrow>fl. unat (head_size s b) + unat EL_BLOCK_OVERHEAD)
         \<and> list_seg (head_next s) (beg (used s)) ul (fin (used s))
         \<and> unat (len (used s)) = length ul
         \<and> unat (bytes (used s)) = (\<Sum>b\<leftarrow>ul. unat (head_size s b) + unat EL_BLOCK_OVERHEAD)"
proof -
  from reach_wf [OF assms] obtain bs fl ul where "wf s bs fl ul" by blast
  from wf_aggregates [OF this] show ?thesis by blast
qed

theorem list_aggregates_invariant_witness:
  "reach init_state {}
   \<and> (\<exists>fl ul.
           list_seg (head_next init_state) (beg (avail init_state)) fl (fin (avail init_state))
         \<and> unat (len (avail init_state)) = length fl
         \<and> unat (bytes (avail init_state))
             = (\<Sum>b\<leftarrow>fl. unat (head_size init_state b) + unat EL_BLOCK_OVERHEAD)
         \<and> list_seg (head_next init_state) (beg (used init_state)) ul (fin (used init_state))
         \<and> unat (len (used init_state)) = length ul
         \<and> unat (bytes (used init_state))
             = (\<Sum>b\<leftarrow>ul. unat (head_size init_state b) + unat EL_BLOCK_OVERHEAD))"
proof -
  have r: "reach init_state {}" using init_ok by (rule reach_init)
  from list_aggregates_invariant [OF r] r show ?thesis by blast
qed


section \<open>Allocating and releasing again (C5)\<close>







section \<open>Growing the heap below a free top block (C9)\<close>





end
